theory Spec2Isabelle
  imports Complex_Main "HOL-Library.Char_ord" "HOL-Library.List_Lexorder" "HOL-Library.Word"
begin

section \<open>JavaScript strings and paths\<close>

text \<open>
  JavaScript strings are modelled as HOL strings (lists of characters). The functions
  below are the string methods the backup manager and the backup reporter call:
  \<^verbatim>\<open>endsWith\<close>, \<^verbatim>\<open>replace\<close> with a one-character regular expression (first match, or all
  matches with the \<^verbatim>\<open>g\<close> flag), \<^verbatim>\<open>replace\<close> with a string pattern (first occurrence),
  \<^verbatim>\<open>split\<close> and the first element of a \<^verbatim>\<open>split\<close>.
\<close>

definition startsWith :: "string \<Rightarrow> string \<Rightarrow> bool" where
  "startsWith s p = (take (length p) s = p)"

definition endsWith :: "string \<Rightarrow> string \<Rightarrow> bool" where
  "endsWith s x = (length x \<le> length s \<and> drop (length s - length x) s = x)"

fun replace_first :: "char \<Rightarrow> string \<Rightarrow> string \<Rightarrow> string" where
  "replace_first c r [] = []"
| "replace_first c r (x # xs) = (if x = c then r @ xs else x # replace_first c r xs)"

fun replace_all :: "char \<Rightarrow> string \<Rightarrow> string \<Rightarrow> string" where
  "replace_all c r [] = []"
| "replace_all c r (x # xs) = (if x = c then r @ replace_all c r xs else x # replace_all c r xs)"

fun replace_str :: "string \<Rightarrow> string \<Rightarrow> string \<Rightarrow> string" where
  "replace_str pat r [] = (if pat = [] then r else [])"
| "replace_str pat r (x # xs) =
     (if startsWith (x # xs) pat then r @ drop (length pat) (x # xs)
      else x # replace_str pat r xs)"

text \<open>\<^verbatim>\<open>s.split(c)[0]\<close>: the part of \<open>s\<close> before the first \<open>c\<close> (all of \<open>s\<close> when there is none).\<close>

definition split_first :: "char \<Rightarrow> string \<Rightarrow> string" where
  "split_first c s = takeWhile (\<lambda>x. x \<noteq> c) s"

fun split_on :: "char \<Rightarrow> string \<Rightarrow> string list" where
  "split_on c [] = [[]]"
| "split_on c (x # xs) =
     (if x = c then [] # split_on c xs
      else (case split_on c xs of [] \<Rightarrow> [[x]] | p # ps \<Rightarrow> (x # p) # ps))"

text \<open>
  POSIX \<^verbatim>\<open>path.basename(p)\<close> is the last segment of the path, trailing slashes dropped;
  \<^verbatim>\<open>path.basename(p, ext)\<close> also drops the extension when the segment ends with it and
  is longer than it (Node returns the empty string when the whole path is the extension).
  \<^verbatim>\<open>path.resolve\<close> and \<^verbatim>\<open>path.join\<close> are modelled on normalised paths, which is what
  the working directory and the entries of a directory listing are.
\<close>

definition last_segment :: "string \<Rightarrow> string" where
  "last_segment p =
     rev (takeWhile (\<lambda>c. c \<noteq> CHR ''/'') (dropWhile (\<lambda>c. c = CHR ''/'') (rev p)))"

definition path_basename :: "string \<Rightarrow> string \<Rightarrow> string" where
  "path_basename p ext =
     (if ext \<noteq> [] \<and> p = ext then []
      else (let b = last_segment p in
            if ext \<noteq> [] \<and> endsWith b ext \<and> b \<noteq> ext
            then take (length b - length ext) b else b))"

definition path_join :: "string \<Rightarrow> string \<Rightarrow> string" where
  "path_join a b = a @ ''/'' @ b"

definition path_resolve :: "string \<Rightarrow> string \<Rightarrow> string" where
  "path_resolve cwd p =
     (if startsWith p ''/'' then p else if cwd = ''/'' then ''/'' @ p else cwd @ ''/'' @ p)"

section \<open>Dates\<close>

text \<open>
  A \<^verbatim>\<open>Date\<close> holds a time value, the milliseconds since the epoch in UTC, or is the
  Invalid Date (time value NaN). The calendar functions are the ones of the language
  definition (Day, DayFromYear, YearFromTime, MonthFromTime, DateFromTime, ...), with
  YearFromTime computed by counting years up from a lower estimate.
\<close>

datatype jsdate = InvalidDate | TimeValue int

definition msPerDay :: int where
  "msPerDay = 86400000"

definition Day :: "int \<Rightarrow> int" where
  "Day t = t div msPerDay"

definition DaysInYear :: "int \<Rightarrow> int" where
  "DaysInYear y =
     (if y mod 4 \<noteq> 0 then 365 else if y mod 100 \<noteq> 0 then 366
      else if y mod 400 \<noteq> 0 then 365 else 366)"

definition DayFromYear :: "int \<Rightarrow> int" where
  "DayFromYear y =
     365 * (y - 1970) + (y - 1969) div 4 - (y - 1901) div 100 + (y - 1601) div 400"

lemma div_succ_bounds:
  "0 < n \<Longrightarrow> a div n \<le> (a + 1) div n \<and> (a + 1) div n \<le> a div n + (1::int)"
proof
  assume n: "0 < n"
  show "a div n \<le> (a + 1) div n" using n by (simp add: zdiv_mono1)
next
  assume n: "0 < n"
  have "(a + 1) div n \<le> (a + n) div n" using n by (intro zdiv_mono1) auto
  also have "\<dots> = a div n + 1" using n by (simp add: div_add_self2)
  finally show "(a + 1) div n \<le> a div n + 1" .
qed

lemma DayFromYear_step: "DayFromYear y < DayFromYear (y + 1)"
proof -
  have a: "(y - 1969) div 4 \<le> (y + 1 - 1969) div 4"
    using div_succ_bounds [of 4 "y - 1969"] by (simp add: algebra_simps)
  have b: "(y + 1 - 1901) div 100 \<le> (y - 1901) div 100 + 1"
    using div_succ_bounds [of 100 "y - 1901"] by (simp add: algebra_simps)
  have c: "(y - 1601) div 400 \<le> (y + 1 - 1601) div 400"
    using div_succ_bounds [of 400 "y - 1601"] by (simp add: algebra_simps)
  have "365 * (y - 1970) + p - q + r < 365 * (y + 1 - 1970) + p' - q' + r'"
    if "p \<le> p'" "q' \<le> q + 1" "r \<le> r'" for p p' q q' r r' :: int
    using that by (simp add: algebra_simps)
  from this [OF a b c] show ?thesis unfolding DayFromYear_def .
qed

function year_up :: "int \<Rightarrow> int \<Rightarrow> int" where
  "year_up d y = (if DayFromYear (y + 1) \<le> d then year_up d (y + 1) else y)"
  by pat_completeness auto
termination year_up
proof (relation "measure (\<lambda>(d, y). nat (d - DayFromYear y))")
  show "wf (measure (\<lambda>(d, y). nat (d - DayFromYear y)))" by simp
next
  fix d y :: int
  assume "DayFromYear (y + 1) \<le> d"
  then show "((d, y + 1), (d, y)) \<in> measure (\<lambda>(d, y). nat (d - DayFromYear y))"
    using DayFromYear_step [of y] by simp
qed

declare year_up.simps [simp del]

text \<open>
  The year of day \<open>d\<close>: the largest \<open>y\<close> with \<open>DayFromYear y \<le> d\<close>. The search starts
  at a year that is not after it (366-day years forward of 1970, 365-day years backward).
\<close>

definition YearFromTime :: "int \<Rightarrow> int" where
  "YearFromTime t =
     (let d = Day t in year_up d (1970 + (if 0 \<le> d then d div 366 else d div 365)))"

definition InLeapYear :: "int \<Rightarrow> int" where
  "InLeapYear t = (if DaysInYear (YearFromTime t) = 366 then 1 else 0)"

definition DayWithinYear :: "int \<Rightarrow> int" where
  "DayWithinYear t = Day t - DayFromYear (YearFromTime t)"

definition MonthFromTime :: "int \<Rightarrow> int" where
  "MonthFromTime t =
     (let d = DayWithinYear t; l = InLeapYear t in
      if d < 31 then 0 else if d < 59 + l then 1 else if d < 90 + l then 2
      else if d < 120 + l then 3 else if d < 151 + l then 4 else if d < 181 + l then 5
      else if d < 212 + l then 6 else if d < 243 + l then 7 else if d < 273 + l then 8
      else if d < 304 + l then 9 else if d < 334 + l then 10 else 11)"

definition DateFromTime :: "int \<Rightarrow> int" where
  "DateFromTime t =
     (let d = DayWithinYear t; l = InLeapYear t; m = MonthFromTime t in
      if m = 0 then d + 1 else if m = 1 then d - 30 else if m = 2 then d - 58 - l
      else if m = 3 then d - 89 - l else if m = 4 then d - 119 - l
      else if m = 5 then d - 150 - l else if m = 6 then d - 180 - l
      else if m = 7 then d - 211 - l else if m = 8 then d - 242 - l
      else if m = 9 then d - 272 - l else if m = 10 then d - 303 - l else d - 333 - l)"

definition HourFromTime :: "int \<Rightarrow> int" where
  "HourFromTime t = (t div 3600000) mod 24"

definition MinFromTime :: "int \<Rightarrow> int" where
  "MinFromTime t = (t div 60000) mod 60"

definition SecFromTime :: "int \<Rightarrow> int" where
  "SecFromTime t = (t div 1000) mod 60"

definition msFromTime :: "int \<Rightarrow> int" where
  "msFromTime t = t mod 1000"

text \<open>Decimal digits, lowest digits of the number, in fields of fixed width.\<close>

definition digit :: "int \<Rightarrow> char" where
  "digit n = ''0123456789'' ! nat (n mod 10)"

definition dig2 :: "int \<Rightarrow> string" where
  "dig2 n = [digit (n div 10), digit n]"

definition dig3 :: "int \<Rightarrow> string" where
  "dig3 n = [digit (n div 100), digit (n div 10), digit n]"

definition dig4 :: "int \<Rightarrow> string" where
  "dig4 n = [digit (n div 1000), digit (n div 100), digit (n div 10), digit n]"

definition dig6 :: "int \<Rightarrow> string" where
  "dig6 n = [digit (n div 100000), digit (n div 10000)] @ dig4 n"

text \<open>
  \<^verbatim>\<open>Date.prototype.toISOString\<close> of a valid date: \<^verbatim>\<open>YYYY-MM-DDTHH:mm:ss.sssZ\<close> in UTC,
  the year with a sign and six digits when it is outside 0..9999.
\<close>

definition iso_year :: "int \<Rightarrow> string" where
  "iso_year y =
     (if 0 \<le> y \<and> y \<le> 9999 then dig4 y
      else (if y < 0 then ''-'' else ''+'') @ dig6 \<bar>y\<bar>)"

definition toISOString :: "int \<Rightarrow> string" where
  "toISOString t =
     iso_year (YearFromTime t) @ ''-'' @ dig2 (MonthFromTime t + 1) @ ''-''
       @ dig2 (DateFromTime t) @ ''T'' @ dig2 (HourFromTime t) @ '':''
       @ dig2 (MinFromTime t) @ '':'' @ dig2 (SecFromTime t) @ ''.''
       @ dig3 (msFromTime t) @ ''Z''"

text \<open>
  The engine's two other \<^verbatim>\<open>Date\<close> constructors are parameters of the model:
  \<^verbatim>\<open>new Date(string)\<close>, whose value on a string outside the Date Time String Format
  is implementation-defined, and \<^verbatim>\<open>new Date(y, m, d, h, mi, s)\<close> on numbers, which reads
  the fields in the local time zone.
\<close>

record engine =
  Date_parse :: "string \<Rightarrow> jsdate"
  Date_local :: "int \<Rightarrow> int \<Rightarrow> int \<Rightarrow> int \<Rightarrow> int \<Rightarrow> int \<Rightarrow> jsdate"

text \<open>
  \<^verbatim>\<open>parseInt(s)\<close>: leading white space, an optional sign, an optional \<^verbatim>\<open>0x\<close> prefix, then
  the longest run of digits of the radix; \<open>None\<close> is NaN (no digit).
\<close>

definition is_js_space :: "char \<Rightarrow> bool" where
  "is_js_space c = (c \<in> set [CHR 0x09, CHR 0x0A, CHR 0x0B, CHR 0x0C, CHR 0x0D, CHR 0x20, CHR 0xA0])"

definition digit_value :: "char \<Rightarrow> nat" where
  "digit_value c =
     (let n = (of_char c :: nat) in
      if 48 \<le> n \<and> n \<le> 57 then n - 48
      else if 97 \<le> n \<and> n \<le> 122 then n - 87
      else if 65 \<le> n \<and> n \<le> 90 then n - 55
      else 36)"

definition radix_digits :: "nat \<Rightarrow> string \<Rightarrow> string" where
  "radix_digits r s = takeWhile (\<lambda>c. digit_value c < r) s"

definition radix_value :: "nat \<Rightarrow> string \<Rightarrow> int" where
  "radix_value r ds = foldl (\<lambda>a c. a * int r + int (digit_value c)) 0 ds"

definition parseInt :: "string \<Rightarrow> int option" where
  "parseInt s =
     (let s1 = dropWhile is_js_space s;
          neg = startsWith s1 ''-'';
          s2 = (if startsWith s1 ''-'' \<or> startsWith s1 ''+'' then drop 1 s1 else s1);
          hex = (startsWith s2 ''0x'' \<or> startsWith s2 ''0X'');
          r = (if hex then 16 else 10);
          ds = radix_digits r (if hex then drop 2 s2 else s2)
      in if ds = [] then None
         else Some ((if neg then - 1 else 1) * radix_value r ds))"

definition new_Date_fields ::
  "engine \<Rightarrow> int option \<Rightarrow> int option \<Rightarrow> int option \<Rightarrow> int option \<Rightarrow> int option
     \<Rightarrow> int option \<Rightarrow> jsdate" where
  "new_Date_fields eng y m d h mi s =
     (case (y, m, d, h, mi, s) of
        (Some y', Some m', Some d', Some h', Some mi', Some s') \<Rightarrow>
          Date_local eng y' m' d' h' mi' s'
      | _ \<Rightarrow> InvalidDate)"

section \<open>The snapshot file name\<close>

text \<open>\<^verbatim>\<open>BackupManager.#generateBackupFileName\<close>, at the clock reading \<open>now\<close>.\<close>

definition generateBackupFileName :: "int \<Rightarrow> string" where
  "generateBackupFileName now =
     (let timestamp =
        split_first (CHR ''.'')
          (replace_all (CHR '':'') ''-'' (replace_first (CHR ''T'') ''-'' (toISOString now)))
      in ''backup-'' @ timestamp @ ''.backup.json'')"

text \<open>\<^verbatim>\<open>BackupReporter.#parseTimestampFromFilename\<close>.\<close>

definition parseTimestampFromFilename :: "engine \<Rightarrow> string \<Rightarrow> jsdate" where
  "parseTimestampFromFilename eng filename =
     (let basename = path_basename filename ''.backup.json'';
          timestampStr = replace_str ''backup-'' [] basename;
          timePart = split_first (CHR ''T'') timestampStr;
          parts = split_on (CHR ''-'') timestampStr
      in if timePart = [] \<and> 6 \<le> length parts
         then new_Date_fields eng (parseInt (parts ! 0))
                (map_option (\<lambda>m. m - 1) (parseInt (parts ! 1))) (parseInt (parts ! 2))
                (parseInt (parts ! 3)) (parseInt (parts ! 4)) (parseInt (parts ! 5))
         else Date_parse eng timestampStr)"

text \<open>
  The pattern of the on-disk format as the specification words it:
  \<^verbatim>\<open>backup-{YYYY}-{MM}-{DD}-{HH}-{mm}-{ss}.backup.json\<close>, and the name the specification
  describes, with the fields of the local time, \<open>tza\<close> milliseconds ahead of UTC.
\<close>

definition is_digit :: "char \<Rightarrow> bool" where
  "is_digit c = (c \<in> set ''0123456789'')"

definition spec_pattern :: "string \<Rightarrow> bool" where
  "spec_pattern s =
     list_all2 (\<lambda>p c. if p = CHR ''#'' then is_digit c else c = p)
       ''backup-####-##-##-##-##-##.backup.json'' s"

definition stamp :: "int \<Rightarrow> string" where
  "stamp t =
     dig4 (YearFromTime t) @ ''-'' @ dig2 (MonthFromTime t + 1) @ ''-'' @ dig2 (DateFromTime t)
       @ ''-'' @ dig2 (HourFromTime t) @ ''-'' @ dig2 (MinFromTime t) @ ''-''
       @ dig2 (SecFromTime t)"

definition spec_local_filename :: "int \<Rightarrow> int \<Rightarrow> string" where
  "spec_local_filename tza t = ''backup-'' @ stamp (t + tza) @ ''.backup.json''"

section \<open>JSON values and their serialisation\<close>

text \<open>
  The values of the language the model covers: \<^verbatim>\<open>null\<close>, the booleans, the integers from
  \<open>- 2\<^sup>5\<^sup>3\<close> to \<open>2\<^sup>5\<^sup>3 - 1\<close> (\<open>JNum w\<close> is the number \<open>sint w\<close>; each of them is a double of
  its own and prints in plain decimal), \<^verbatim>\<open>NaN\<close>, the strings of characters below U+0100,
  arrays, and objects, each the list of its own properties in enumeration order. The other
  numbers (fractions, larger magnitudes, the negative zero, the infinities), \<^verbatim>\<open>undefined\<close>,
  functions and the other characters are outside the model.
\<close>

datatype json =
    JNull
  | JBool bool
  | JNum "54 word"
  | JStr string
  | JArr "json list"
  | JObj "(string \<times> json) list"
  | JNaN

definition isArray :: "json \<Rightarrow> bool" where
  "isArray v = (case v of JArr _ \<Rightarrow> True | _ \<Rightarrow> False)"

fun show_nat :: "nat \<Rightarrow> string" where
  "show_nat n = (if n < 10 then [digit (int n)] else show_nat (n div 10) @ [digit (int n)])"

declare show_nat.simps [simp del]

definition show_int :: "int \<Rightarrow> string" where
  "show_int i = (if i < 0 then ''-'' @ show_nat (nat (- i)) else show_nat (nat i))"

definition hex_digit :: "nat \<Rightarrow> char" where
  "hex_digit n = ''0123456789abcdef'' ! (n mod 16)"

text \<open>\<^verbatim>\<open>QuoteJSONString\<close>: the two-character escapes, \<^verbatim>\<open>\u00XX\<close> for the other control characters.\<close>

definition quote_char :: "char \<Rightarrow> string" where
  "quote_char c =
     (if c = CHR 0x22 then [CHR 0x5C, CHR 0x22]
      else if c = CHR 0x5C then [CHR 0x5C, CHR 0x5C]
      else if c = CHR 0x08 then [CHR 0x5C, CHR ''b'']
      else if c = CHR 0x09 then [CHR 0x5C, CHR ''t'']
      else if c = CHR 0x0A then [CHR 0x5C, CHR ''n'']
      else if c = CHR 0x0C then [CHR 0x5C, CHR ''f'']
      else if c = CHR 0x0D then [CHR 0x5C, CHR ''r'']
      else if (of_char c :: nat) < 32
        then [CHR 0x5C, CHR ''u'', CHR ''0'', CHR ''0'',
              hex_digit (of_char c div 16), hex_digit (of_char c)]
      else [c])"

definition QuoteJSONString :: "string \<Rightarrow> string" where
  "QuoteJSONString s = [CHR 0x22] @ concat (map quote_char s) @ [CHR 0x22]"

definition indent :: "nat \<Rightarrow> string" where
  "indent n = replicate (2 * n) (CHR '' '')"

text \<open>
  \<^verbatim>\<open>JSON.stringify(data, null, 2)\<close>: \<open>stringify n v\<close> is the text of \<open>v\<close> inside \<open>n\<close> levels
  of nesting; the elements of a non-empty array or object stand on lines of their own, and
  \<^verbatim>\<open>NaN\<close> is written as \<^verbatim>\<open>null\<close>.
\<close>

fun stringify :: "nat \<Rightarrow> json \<Rightarrow> string"
  and stringify_elems :: "nat \<Rightarrow> json list \<Rightarrow> string"
  and stringify_members :: "nat \<Rightarrow> (string \<times> json) list \<Rightarrow> string" where
  "stringify n JNull = ''null''"
| "stringify n (JBool b) = (if b then ''true'' else ''false'')"
| "stringify n (JNum w) = show_int (sint w)"
| "stringify n (JStr s) = QuoteJSONString s"
| "stringify n (JArr xs) =
     (if xs = [] then ''[]''
      else ''['' @ [CHR 0x0A] @ indent (Suc n) @ stringify_elems (Suc n) xs
             @ [CHR 0x0A] @ indent n @ '']'')"
| "stringify n (JObj kvs) =
     (if kvs = [] then ''{}''
      else ''{'' @ [CHR 0x0A] @ indent (Suc n) @ stringify_members (Suc n) kvs
             @ [CHR 0x0A] @ indent n @ ''}'')"
| "stringify n JNaN = ''null''"
| "stringify_elems n [] = []"
| "stringify_elems n (x # xs) =
     stringify n x @ (if xs = [] then [] else '','' @ [CHR 0x0A] @ indent n @ stringify_elems n xs)"
| "stringify_members n [] = []"
| "stringify_members n (kv # kvs) =
     QuoteJSONString (fst kv) @ '': '' @ stringify n (snd kv)
       @ (if kvs = [] then [] else '','' @ [CHR 0x0A] @ indent n @ stringify_members n kvs)"

definition JSON_stringify :: "json \<Rightarrow> string" where
  "JSON_stringify v = stringify 0 v"

section \<open>The backup manager\<close>

text \<open>
  An \<^verbatim>\<open>Error\<close> with its \<^verbatim>\<open>code\<close> (empty when it has none) and its message, and the
  notifications of the manager, one constructor for each event name with its arguments.
\<close>

datatype js_error = JsError (code: string) (message: string)

datatype notification =
    BackupStarted rat
  | BackupAlreadyRunning
  | BackupCompleted string
  | BackupFailed js_error "string option"
  | BackupError js_error
  | BackupTimeout js_error
  | BackupStopped
  | BackupNotRunning

text \<open>
  What the environment answers to one snapshot operation: the outcome of \<^verbatim>\<open>fs.access\<close> and
  of \<^verbatim>\<open>fs.mkdir\<close> (\<open>None\<close>: no error), what the students callback throws or returns, the
  clock reading of \<^verbatim>\<open>new Date()\<close>, and the outcome of \<^verbatim>\<open>fs.writeFile\<close>.
\<close>

record op_env =
  accessResult :: "js_error option"
  mkdirResult :: "js_error option"
  callbackResult :: "js_error + json"
  clock :: int
  writeResult :: "js_error option"

text \<open>
  The manager: its private fields, and with them the process's working directory and the
  files written, the notifications emitted so far, the errors of the callbacks given to
  \<^verbatim>\<open>setImmediate\<close> that have not run yet, the errors thrown outside any handler, the
  number of timers armed, and the snapshot operations entered and not yet finished, each
  with its number and the timer ticks it has spanned.
\<close>

record manager =
  intervalId :: "nat option"
  backupInterval :: int
  isBackupInProgress :: bool
  pendingIntervalsCount :: nat
  cwd :: string
  disk :: "string \<rightharpoonup> string"
  emitted :: "notification list"
  immediates :: "js_error list"
  thrown :: "js_error list"
  timersArmed :: nat
  launched :: nat
  inFlight :: "(nat \<times> nat) list"

definition new_BackupManager :: "string \<Rightarrow> int \<Rightarrow> manager" where
  "new_BackupManager dir intervalMs =
     \<lparr>intervalId = None, backupInterval = intervalMs, isBackupInProgress = False,
      pendingIntervalsCount = 0, cwd = dir, disk = Map.empty, emitted = [], immediates = [],
      thrown = [],
      timersArmed = 0, launched = 0, inFlight = []\<rparr>"

text \<open>\<^verbatim>\<open>#ensureBackupDirectory\<close>: \<open>None\<close> when it resolves, the error it rejects with otherwise.\<close>

definition ensureBackupDirectory :: "op_env \<Rightarrow> js_error option" where
  "ensureBackupDirectory env =
     (case accessResult env of
        None \<Rightarrow> None
      | Some error \<Rightarrow> if code error = ''ENOENT'' then mkdirResult env else Some error)"

text \<open>\<^verbatim>\<open>saveToJSON\<close> of file-utils: the new disk, or the error of the write.\<close>

definition saveToJSON ::
  "string \<Rightarrow> (string \<rightharpoonup> string) \<Rightarrow> js_error option \<Rightarrow> json \<Rightarrow> string
     \<Rightarrow> js_error + (string \<rightharpoonup> string)" where
  "saveToJSON dir files wr data filePath =
     (let absolutePath = path_resolve dir filePath; text = JSON_stringify data in
      case wr of Some e \<Rightarrow> Inl e | None \<Rightarrow> Inr (files(absolutePath \<mapsto> text)))"

text \<open>
  The \<^verbatim>\<open>try\<close> block of \<^verbatim>\<open>#performBackup\<close>: the file name and the new disk when it
  completes, the error and the file name (if already computed) when it throws.
\<close>

definition performBackup_try ::
  "string \<Rightarrow> (string \<rightharpoonup> string) \<Rightarrow> op_env
     \<Rightarrow> (js_error \<times> string option) + (string \<times> (string \<rightharpoonup> string))" where
  "performBackup_try dir files env =
     (case ensureBackupDirectory env of
        Some e \<Rightarrow> Inl (e, None)
      | None \<Rightarrow>
          (case callbackResult env of
             Inl e \<Rightarrow> Inl (e, None)
           | Inr students \<Rightarrow>
               if \<not> isArray students
               then Inl (JsError [] ''Students data is not an array'', None)
               else (let backupFileName = generateBackupFileName (clock env);
                         backupFilePath = path_join ''backups'' backupFileName
                     in case saveToJSON dir files (writeResult env) students backupFilePath of
                          Inl e \<Rightarrow> Inl (e, Some backupFileName)
                        | Inr files' \<Rightarrow> Inr (backupFileName, files'))))"

text \<open>
  \<^verbatim>\<open>#performBackup\<close> runs in two parts. The first runs inside the caller, up to the first
  \<^verbatim>\<open>await\<close>: it sets the flag and resets the counter. The second runs when the awaited
  work is done: the notification of the outcome, the \<^verbatim>\<open>finally\<close> block and, on failure,
  the \<^verbatim>\<open>catch\<close> handler of the caller, which emits \<^verbatim>\<open>backup:error\<close>.
\<close>

definition performBackup_enter :: "manager \<Rightarrow> manager" where
  "performBackup_enter s =
     s\<lparr>isBackupInProgress := True, pendingIntervalsCount := 0,
       launched := launched s + 1, inFlight := inFlight s @ [(launched s, 0)]\<rparr>"

definition performBackup_finish :: "manager \<Rightarrow> nat \<Rightarrow> op_env \<Rightarrow> manager" where
  "performBackup_finish s i env =
     (if i \<notin> fst ` set (inFlight s) then s
      else (let s1 = (case performBackup_try (cwd s) (disk s) env of
                        Inr (backupFileName, files') \<Rightarrow>
                          s\<lparr>disk := files',
                            emitted := emitted s @ [BackupCompleted backupFileName]\<rparr>
                      | Inl (error, backupFileName) \<Rightarrow>
                          s\<lparr>emitted := emitted s
                               @ [BackupFailed error backupFileName, BackupError error]\<rparr>)
            in s1\<lparr>isBackupInProgress := False, pendingIntervalsCount := 0,
                  inFlight := filter (\<lambda>p. fst p \<noteq> i) (inFlight s1)\<rparr>))"

definition timeout_error :: js_error where
  "timeout_error = JsError [] ''Backup operation has been pending for 3 intervals in a row''"

definition start :: "manager \<Rightarrow> manager" where
  "start s =
     (if intervalId s \<noteq> None then s\<lparr>emitted := emitted s @ [BackupAlreadyRunning]\<rparr>
      else performBackup_enter
             (s\<lparr>emitted := emitted s @ [BackupStarted (of_int (backupInterval s) / 1000)],
                intervalId := Some (timersArmed s), timersArmed := timersArmed s + 1\<rparr>))"

text \<open>
  One firing of the timer: the callback given to \<^verbatim>\<open>setInterval\<close>. A cleared timer does not
  fire. Every operation still in flight has then spanned one more tick.
\<close>

definition tick :: "manager \<Rightarrow> manager" where
  "tick s =
     (if intervalId s = None then s
      else (let s0 = s\<lparr>inFlight := map (\<lambda>p. (fst p, snd p + 1)) (inFlight s)\<rparr> in
            if isBackupInProgress s0
            then (let s1 = s0\<lparr>pendingIntervalsCount := pendingIntervalsCount s0 + 1\<rparr> in
                  if 3 \<le> pendingIntervalsCount s1
                  then s1\<lparr>intervalId := None, isBackupInProgress := False,
                          emitted := emitted s1 @ [BackupTimeout timeout_error],
                          immediates := immediates s1 @ [timeout_error]\<rparr>
                  else s1)
            else performBackup_enter s0))"

definition stop :: "manager \<Rightarrow> manager" where
  "stop s =
     (if intervalId s = None then s\<lparr>emitted := emitted s @ [BackupNotRunning]\<rparr>
      else s\<lparr>intervalId := None, emitted := emitted s @ [BackupStopped]\<rparr>)"

definition isRunning :: "manager \<Rightarrow> bool" where
  "isRunning s = (intervalId s \<noteq> None)"

text \<open>The oldest callback given to \<^verbatim>\<open>setImmediate\<close> runs: it throws its error.\<close>

definition run_immediate :: "manager \<Rightarrow> manager" where
  "run_immediate s =
     (case immediates s of
        [] \<Rightarrow> s
      | error # rest \<Rightarrow> s\<lparr>immediates := rest, thrown := thrown s @ [error]\<rparr>)"

text \<open>
  The events of a run: the two calls, a firing of the timer, the end of the awaited work of
  operation \<open>i\<close> with the environment's answers, and the turn of a \<^verbatim>\<open>setImmediate\<close>
  callback.
\<close>

datatype event = Start | Stop | Tick | Finish nat op_env | Immediate

fun step :: "manager \<Rightarrow> event \<Rightarrow> manager" where
  "step s Start = start s"
| "step s Stop = stop s"
| "step s Tick = tick s"
| "step s (Finish i env) = performBackup_finish s i env"
| "step s Immediate = run_immediate s"

definition run :: "manager \<Rightarrow> event list \<Rightarrow> manager" where
  "run s es = foldl step s es"

text \<open>
  An error thrown outside any handler ends the process, unless its host has registered a
  listener for \<^verbatim>\<open>uncaughtException\<close> (nothing in this repository registers one).
  \<open>run_process handled s es\<close> is the run of the events \<open>es\<close> in a process whose host handles
  such errors (\<open>handled\<close>) or does not: there the run ends with the event that throws, and
  the events after it never happen. \<open>run\<close> is the run of a process that lives on.
\<close>

definition alive :: "bool \<Rightarrow> manager \<Rightarrow> bool" where
  "alive handled s = (handled \<or> thrown s = [])"

fun run_process :: "bool \<Rightarrow> manager \<Rightarrow> event list \<Rightarrow> manager" where
  "run_process handled s [] = s"
| "run_process handled s (e # es) =
     (if alive handled s then run_process handled (step s e) es else s)"

text \<open>
  A run is calm when no \<^verbatim>\<open>start()\<close> arms a timer while an operation entered earlier is
  still in flight.
\<close>

fun calm :: "manager \<Rightarrow> event list \<Rightarrow> bool" where
  "calm s [] = True"
| "calm s (e # es) =
     ((e = Start \<and> intervalId s = None \<longrightarrow> inFlight s = []) \<and> calm (step s e) es)"

text \<open>
  The invariant of calm runs: at most one operation is in flight and, while the timer is
  armed, the flag says whether one is and the counter is the number of ticks it has spanned.
\<close>

definition manager_inv :: "manager \<Rightarrow> bool" where
  "manager_inv s =
     (length (inFlight s) \<le> 1
      \<and> (intervalId s \<noteq> None \<longrightarrow>
           (isBackupInProgress s \<longleftrightarrow> inFlight s \<noteq> [])
           \<and> (\<forall>p \<in> set (inFlight s). snd p = pendingIntervalsCount s \<and> snd p < 3)))"

text \<open>
  Environments used in the examples: every call succeeds and the callback returns an empty
  array at 2025-01-02T03:04:05.678Z; the same with a failing write.
\<close>

definition example_env :: op_env where
  "example_env =
     \<lparr>accessResult = None, mkdirResult = None, callbackResult = Inr (JArr []),
      clock = 1735787045678, writeResult = None\<rparr>"

definition example_env_write_fails :: op_env where
  "example_env_write_fails = example_env\<lparr>writeResult := Some (JsError ''ENOSPC'' ''no space left'')\<rparr>"

section \<open>The backup reporter\<close>

text \<open>
  The answer of \<^verbatim>\<open>fs.readdir\<close>: the names in the directory, or an error (with code
  \<^verbatim>\<open>ENOENT\<close> when the directory does not exist).
\<close>

datatype readdir_result = Listing "string list" | ReaddirError js_error

text \<open>\<^verbatim>\<open>BackupReporter.#getBackupFiles\<close>, in the working directory \<open>dir\<close>.\<close>

definition getBackupFiles :: "string \<Rightarrow> readdir_result \<Rightarrow> js_error + string list" where
  "getBackupFiles dir rd =
     (let backupPath = path_resolve dir ''backups'' in
      case rd of
        Listing files \<Rightarrow>
          Inr (map (\<lambda>file. path_join backupPath file)
                 (filter (\<lambda>file. endsWith file ''.backup.json'') files))
      | ReaddirError error \<Rightarrow> if code error = ''ENOENT'' then Inr [] else Inl error)"

text \<open>
  An ordinary object is the list of its own properties in enumeration order: the array
  indices in ascending order first, then the other keys in the order of their creation.
  \<open>obj_set\<close> is the assignment \<^verbatim>\<open>o[k] = v\<close>.
\<close>

definition array_index :: "string \<Rightarrow> nat option" where
  "array_index k =
     (if k \<noteq> [] \<and> list_all is_digit k \<and> (k = ''0'' \<or> hd k \<noteq> CHR ''0'')
         \<and> radix_value 10 k < 4294967295
      then Some (nat (radix_value 10 k)) else None)"

fun obj_insert :: "(string \<times> 'a) list \<Rightarrow> string \<Rightarrow> 'a \<Rightarrow> (string \<times> 'a) list" where
  "obj_insert [] k v = [(k, v)]"
| "obj_insert (p # ps) k v =
     (case array_index k of
        None \<Rightarrow> p # obj_insert ps k v
      | Some n \<Rightarrow>
          (case array_index (fst p) of
             None \<Rightarrow> (k, v) # p # ps
           | Some m \<Rightarrow> if n < m then (k, v) # p # ps else p # obj_insert ps k v))"

definition obj_set :: "(string \<times> 'a) list \<Rightarrow> string \<Rightarrow> 'a \<Rightarrow> (string \<times> 'a) list" where
  "obj_set ob k v =
     (if k \<in> fst ` set ob then map (\<lambda>p. if fst p = k then (k, v) else p) ob
      else obj_insert ob k v)"

text \<open>
  The values \<^verbatim>\<open>studentIdCounts\<close> holds: a count, or a text. A key that names a function of
  \<^verbatim>\<open>Object.prototype\<close> reads as that function before it is first assigned, and
  \<^verbatim>\<open>(f || 0) + 1\<close> is then the source text of the function followed by \<^verbatim>\<open>1\<close>; every
  later increment appends another \<^verbatim>\<open>1\<close>. The key \<^verbatim>\<open>__proto__\<close> reads as the prototype and
  assigning a string to it changes nothing.
\<close>

datatype amount = Count nat | Text string

definition Object_prototype_functions :: "(string \<times> string) list" where
  "Object_prototype_functions =
     [(''constructor'', ''Object''), (''hasOwnProperty'', ''hasOwnProperty''),
      (''isPrototypeOf'', ''isPrototypeOf''),
      (''propertyIsEnumerable'', ''propertyIsEnumerable''),
      (''toLocaleString'', ''toLocaleString''), (''toString'', ''toString''),
      (''valueOf'', ''valueOf''), (''__defineGetter__'', ''__defineGetter__''),
      (''__defineSetter__'', ''__defineSetter__''),
      (''__lookupGetter__'', ''__lookupGetter__''),
      (''__lookupSetter__'', ''__lookupSetter__'')]"

definition count_id :: "(string \<times> amount) list \<Rightarrow> string \<Rightarrow> (string \<times> amount) list" where
  "count_id counts key =
     (case map_of counts key of
        Some (Count n) \<Rightarrow> obj_set counts key (Count (n + 1))
      | Some (Text t) \<Rightarrow> obj_set counts key (Text (t @ ''1''))
      | None \<Rightarrow>
          if key = ''__proto__'' then counts
          else (case map_of Object_prototype_functions key of
                  Some f \<Rightarrow>
                    obj_set counts key (Text (''function '' @ f @ ''() { [native code] }1''))
                | None \<Rightarrow> obj_set counts key (Count 1)))"

text \<open>
  Truthiness, the property read \<^verbatim>\<open>student.id\<close> (\<open>None\<close>: undefined) and the conversion of
  an id to a property key (\<open>None\<close>: a TypeError, for an object with a \<^verbatim>\<open>toString\<close> member
  of its own, which is not a function). An array converts to its elements joined by commas,
  with nothing for \<^verbatim>\<open>null\<close>.
\<close>

definition truthy :: "json \<Rightarrow> bool" where
  "truthy v =
     (case v of JNull \<Rightarrow> False | JBool b \<Rightarrow> b | JNum w \<Rightarrow> w \<noteq> 0 | JStr s \<Rightarrow> s \<noteq> []
      | JArr _ \<Rightarrow> True | JObj _ \<Rightarrow> True | JNaN \<Rightarrow> False)"

definition get_property :: "json \<Rightarrow> string \<Rightarrow> json option" where
  "get_property v k = (case v of JObj kvs \<Rightarrow> map_of kvs k | _ \<Rightarrow> None)"

fun to_property_key :: "json \<Rightarrow> string option"
  and join_elems :: "json list \<Rightarrow> string option" where
  "to_property_key JNull = Some ''null''"
| "to_property_key (JBool b) = Some (if b then ''true'' else ''false'')"
| "to_property_key (JNum w) = Some (show_int (sint w))"
| "to_property_key (JStr s) = Some s"
| "to_property_key (JArr xs) = join_elems xs"
| "to_property_key (JObj kvs) =
     (if ''toString'' \<in> fst ` set kvs then None else Some ''[object Object]'')"
| "to_property_key JNaN = Some ''NaN''"
| "join_elems [] = Some []"
| "join_elems (x # xs) =
     (case (if x = JNull then Some [] else to_property_key x) of
        None \<Rightarrow> None
      | Some a \<Rightarrow>
          if xs = [] then Some a
          else (case join_elems xs of None \<Rightarrow> None | Some b \<Rightarrow> Some (a @ '','' @ b)))"

text \<open>The id of a record that passes \<^verbatim>\<open>student && student.id\<close>.\<close>

definition counted_id :: "json \<Rightarrow> json option" where
  "counted_id student =
     (if truthy student
      then (case get_property student ''id'' of
              Some i \<Rightarrow> if truthy i then Some i else None
            | None \<Rightarrow> None)
      else None)"

text \<open>
  The \<^verbatim>\<open>forEach\<close> over the records of one file: \<open>Inr\<close> the counts when it ends, \<open>Inl\<close> the
  counts reached when a key conversion throws.
\<close>

fun forEach_count ::
  "(string \<times> amount) list \<Rightarrow> json list
     \<Rightarrow> (string \<times> amount) list + (string \<times> amount) list" where
  "forEach_count counts [] = Inr counts"
| "forEach_count counts (student # rest) =
     (case counted_id student of
        None \<Rightarrow> forEach_count counts rest
      | Some i \<Rightarrow>
          (case to_property_key i of
             None \<Rightarrow> Inl counts
           | Some key \<Rightarrow> forEach_count (count_id counts key) rest))"

text \<open>\<^verbatim>\<open>fileDate > latestDate\<close>: false when either date is invalid.\<close>

definition date_gt :: "jsdate \<Rightarrow> jsdate \<Rightarrow> bool" where
  "date_gt a b = (case (a, b) of (TimeValue x, TimeValue y) \<Rightarrow> y < x | _ \<Rightarrow> False)"

record report_acc =
  latestFile :: "string option"
  latestDate :: "jsdate option"
  studentIdCounts :: "(string \<times> amount) list"
  totalStudents :: nat
  totalFilesWithStudents :: nat

definition init_acc :: report_acc where
  "init_acc =
     \<lparr>latestFile = None, latestDate = None, studentIdCounts = [], totalStudents = 0,
      totalFilesWithStudents = 0\<rparr>"

text \<open>
  The body of the loop of \<^verbatim>\<open>generateReport\<close> for one file; \<open>load\<close> is what
  \<^verbatim>\<open>await loadJSON(filePath)\<close> throws or returns. An error anywhere in the \<^verbatim>\<open>try\<close> block
  ends the work on the file and keeps what was assigned before. The two totals are
  counts: below \<open>2\<^sup>5\<^sup>3\<close> the additions of the code are exact.
\<close>

definition process_file ::
  "engine \<Rightarrow> (string \<Rightarrow> js_error + json) \<Rightarrow> report_acc \<Rightarrow> string \<Rightarrow> report_acc" where
  "process_file eng load acc filePath =
     (case load filePath of
        Inl error \<Rightarrow> acc
      | Inr students \<Rightarrow>
          (case students of
             JArr records \<Rightarrow>
               (let fileDate = parseTimestampFromFilename eng filePath;
                    acc1 = (if (case latestDate acc of None \<Rightarrow> True
                                | Some d \<Rightarrow> date_gt fileDate d)
                            then acc\<lparr>latestDate := Some fileDate,
                                     latestFile := Some (last_segment filePath)\<rparr>
                            else acc)
                in case forEach_count (studentIdCounts acc1) records of
                     Inl counts \<Rightarrow> acc1\<lparr>studentIdCounts := counts\<rparr>
                   | Inr counts \<Rightarrow>
                       acc1\<lparr>studentIdCounts := counts,
                            totalStudents := totalStudents acc1 + length records,
                            totalFilesWithStudents :=
                              totalFilesWithStudents acc1
                                + (if 0 < length records then 1 else 0)\<rparr>)
           | _ \<Rightarrow> acc))"

text \<open>
  \<^verbatim>\<open>Array.prototype.sort\<close> with the comparator \<^verbatim>\<open>a.id.localeCompare(b.id)\<close>: the sort is
  stable; \<open>collate\<close> is the comparison of the locale.
\<close>

fun insert_sorted ::
  "(string \<Rightarrow> string \<Rightarrow> int) \<Rightarrow> string \<times> 'a \<Rightarrow> (string \<times> 'a) list
     \<Rightarrow> (string \<times> 'a) list" where
  "insert_sorted collate x [] = [x]"
| "insert_sorted collate x (y # ys) =
     (if collate (fst y) (fst x) \<le> 0 then y # insert_sorted collate x ys else x # y # ys)"

definition js_sort ::
  "(string \<Rightarrow> string \<Rightarrow> int) \<Rightarrow> (string \<times> 'a) list \<Rightarrow> (string \<times> 'a) list" where
  "js_sort collate xs = foldl (\<lambda>sorted x. insert_sorted collate x sorted) [] xs"

text \<open>
  The numbers of the language are doubles. \<open>number_div a b\<close> is the quotient \<^verbatim>\<open>a / b\<close> of two
  counts (below \<open>2\<^sup>5\<^sup>3\<close>, \<open>b\<close> not zero) as the code computes it: the exact quotient rounded to
  the nearest number with a significand of 53 bits, to the even one of two. \<open>bit_length\<close>
  is the number of binary digits of a count and \<open>pow2\<close> a power of two.
\<close>

fun bit_length :: "nat \<Rightarrow> nat" where
  "bit_length n = (if n = 0 then 0 else Suc (bit_length (n div 2)))"

declare bit_length.simps [simp del]

definition pow2 :: "int \<Rightarrow> rat" where
  "pow2 k = (if 0 \<le> k then 2 ^ nat k else 1 / 2 ^ nat (- k))"

definition round_half_even :: "rat \<Rightarrow> int" where
  "round_half_even x =
     (let f = \<lfloor>x\<rfloor>; d = x - of_int f in
      if d < 1 / 2 then f else if 1 / 2 < d then f + 1 else if even f then f else f + 1)"

definition number_div :: "nat \<Rightarrow> nat \<Rightarrow> rat" where
  "number_div a b =
     (if a = 0 then 0
      else (let q = of_nat a / of_nat b;
                k = int (bit_length a) - int (bit_length b);
                e = (if pow2 k \<le> q then k else k - 1);
                ulp = pow2 (e - 52)
            in of_int (round_half_even (q / ulp)) * ulp))"

text \<open>
  \<^verbatim>\<open>parseFloat(x.toFixed(2))\<close>, for the exact value \<open>x\<close> of a double that is not negative:
  \<^verbatim>\<open>toFixed\<close> writes the multiple of 1/100 nearest to \<open>x\<close>, the larger one of two, and the
  result is the number that decimal denotes.
\<close>

definition toFixed2 :: "rat \<Rightarrow> rat" where
  "toFixed2 x = of_int \<lfloor>x * 100 + 1 / 2\<rfloor> / 100"

record full_report =
  amountOfBackupFiles :: nat
  latestBackupFile :: "string option"
  latestBackupDatetime :: "string option"
  studentsGroupedById :: "(string \<times> amount) list"
  averageAmountOfStudents :: rat

datatype report = NoBackups nat string | Report full_report

definition invalid_time_value :: js_error where
  "invalid_time_value = JsError [] ''Invalid time value''"

text \<open>
  \<^verbatim>\<open>BackupReporter.generateReport\<close>. \<^verbatim>\<open>toISOString\<close> of an Invalid Date throws a
  RangeError, which nothing in the method catches.
\<close>

definition generateReport ::
  "engine \<Rightarrow> (string \<Rightarrow> string \<Rightarrow> int) \<Rightarrow> string \<Rightarrow> readdir_result
     \<Rightarrow> (string \<Rightarrow> js_error + json) \<Rightarrow> js_error + report" where
  "generateReport eng collate dir rd load =
     (case getBackupFiles dir rd of
        Inl error \<Rightarrow> Inl error
      | Inr backupFiles \<Rightarrow>
          if length backupFiles = 0 then Inr (NoBackups 0 ''No backup files found.'')
          else (let acc = foldl (process_file eng load) init_acc backupFiles;
                    averageAmount =
                      (if 0 < totalFilesWithStudents acc
                       then number_div (totalStudents acc) (totalFilesWithStudents acc)
                       else 0);
                    studentsById = js_sort collate (studentIdCounts acc);
                    rep = \<lparr>amountOfBackupFiles = length backupFiles,
                           latestBackupFile = latestFile acc,
                           latestBackupDatetime = None,
                           studentsGroupedById = studentsById,
                           averageAmountOfStudents = toFixed2 averageAmount\<rparr>
                in case latestDate acc of
                     None \<Rightarrow> Inr (Report rep)
                   | Some InvalidDate \<Rightarrow> Inl invalid_time_value
                   | Some (TimeValue t) \<Rightarrow>
                       Inr (Report (rep\<lparr>latestBackupDatetime := Some (toISOString t)\<rparr>))))"

section \<open>A concrete engine and locale for the examples\<close>

text \<open>
  The engine of the examples reads the format \<^verbatim>\<open>toISOString\<close> writes and the date-only
  form \<^verbatim>\<open>YYYY-MM-DD\<close> (both in UTC) and takes every other string for an Invalid Date,
  and its local time zone is UTC. The locale of the
  examples compares strings character by character.
\<close>

definition MakeDay :: "int \<Rightarrow> int \<Rightarrow> int \<Rightarrow> int" where
  "MakeDay y m d =
     (let ym = y + m div 12; mn = m mod 12;
          l = (if DaysInYear ym = 366 \<and> 2 \<le> mn then 1 else 0)
      in DayFromYear ym + [0, 31, 59, 90, 120, 151, 181, 212, 243, 273, 304, 334] ! nat mn
           + l + d - 1)"

definition MakeDate :: "int \<Rightarrow> int \<Rightarrow> int \<Rightarrow> int \<Rightarrow> int \<Rightarrow> int" where
  "MakeDate day h mi s ms = day * msPerDay + h * 3600000 + mi * 60000 + s * 1000 + ms"

definition iso_pattern :: "string \<Rightarrow> string \<Rightarrow> bool" where
  "iso_pattern pat s = list_all2 (\<lambda>p c. if p = CHR ''#'' then is_digit c else c = p) pat s"

definition iso_field :: "string \<Rightarrow> nat \<Rightarrow> nat \<Rightarrow> int" where
  "iso_field s i n = radix_value 10 (take n (drop i s))"

definition iso_Date_parse :: "string \<Rightarrow> jsdate" where
  "iso_Date_parse s =
     (let full = iso_pattern ''####-##-##T##:##:##.###Z'' s;
          y = iso_field s 0 4; mo = iso_field s 5 2; d = iso_field s 8 2;
          h = (if full then iso_field s 11 2 else 0);
          mi = (if full then iso_field s 14 2 else 0);
          se = (if full then iso_field s 17 2 else 0);
          ms = (if full then iso_field s 20 3 else 0)
      in if (full \<or> iso_pattern ''####-##-##'' s)
            \<and> 1 \<le> mo \<and> mo \<le> 12 \<and> 1 \<le> d \<and> d \<le> 31 \<and> h \<le> 23 \<and> mi \<le> 59 \<and> se \<le> 59
         then TimeValue (MakeDate (MakeDay y (mo - 1) d) h mi se ms)
         else InvalidDate)"

definition example_engine :: engine where
  "example_engine =
     \<lparr>Date_parse = iso_Date_parse,
      Date_local = (\<lambda>y m d h mi s.
        TimeValue (MakeDate (MakeDay (if 0 \<le> y \<and> y \<le> 99 then 1900 + y else y) m d) h mi s 0))\<rparr>"

definition example_collate :: "string \<Rightarrow> string \<Rightarrow> int" where
  "example_collate a b = (if a < b then - 1 else if a = b then 0 else 1)"

text \<open>
  The count the specification describes: for an id, the number of records of the
  surviving files (those that load as an array) that carry it.
\<close>

definition record_id_key :: "json \<Rightarrow> string option" where
  "record_id_key student =
     (case get_property student ''id'' of None \<Rightarrow> None | Some i \<Rightarrow> to_property_key i)"

definition surviving_records :: "(string \<Rightarrow> js_error + json) \<Rightarrow> string list \<Rightarrow> json list" where
  "surviving_records load files =
     concat (map (\<lambda>f. case load f of Inr (JArr records) \<Rightarrow> records | _ \<Rightarrow> []) files)"

definition spec_id_count :: "(string \<Rightarrow> js_error + json) \<Rightarrow> string list \<Rightarrow> string \<Rightarrow> nat" where
  "spec_id_count load files k =
     length (filter (\<lambda>student. record_id_key student = Some k) (surviving_records load files))"

text \<open>What the examples load: an unreadable snapshot and one with two records.\<close>

definition example_record :: "json \<Rightarrow> json" where
  "example_record i = JObj [(''id'', i), (''name'', JStr ''Ann''), (''age'', JNum 20), (''group'', JNum 4)]"

definition example_load_corrupt :: "string \<Rightarrow> js_error + json" where
  "example_load_corrupt p =
     (if p = ''/app/backups/backup-2025-01-02-03-04-35.backup.json''
      then Inr (JArr [example_record (JStr ''1''), example_record (JStr ''2'')])
      else Inl (JsError [] ''Unexpected token in JSON''))"

text \<open>
  The records \<^verbatim>\<open>generateReport\<close> counts: those that pass \<^verbatim>\<open>student && student.id\<close>, under
  the string their id converts to. A key is plain when it names no member of
  \<^verbatim>\<open>Object.prototype\<close>; records are plain when every counted id converts to a plain key.
\<close>

definition plain_key :: "string \<Rightarrow> bool" where
  "plain_key k = (k \<noteq> ''__proto__'' \<and> map_of Object_prototype_functions k = None)"

definition counted_key :: "json \<Rightarrow> string option" where
  "counted_key student =
     (case counted_id student of None \<Rightarrow> None | Some i \<Rightarrow> to_property_key i)"

definition plain_records :: "json list \<Rightarrow> bool" where
  "plain_records recs =
     list_all (\<lambda>st. case counted_id st of
                      None \<Rightarrow> True
                    | Some i \<Rightarrow>
                        (case to_property_key i of None \<Rightarrow> False | Some k \<Rightarrow> plain_key k))
       recs"

definition counted_records :: "(string \<Rightarrow> js_error + json) \<Rightarrow> string list \<Rightarrow> string \<Rightarrow> nat" where
  "counted_records load files k =
     length (filter (\<lambda>student. counted_key student = Some k) (surviving_records load files))"

definition nonempty_surviving :: "(string \<Rightarrow> js_error + json) \<Rightarrow> string list \<Rightarrow> nat" where
  "nonempty_surviving load files =
     length (filter (\<lambda>f. case load f of Inr (JArr records) \<Rightarrow> records \<noteq> [] | _ \<Rightarrow> False) files)"

definition counts_ok :: "(string \<times> amount) list \<Rightarrow> bool" where
  "counts_ok c = (distinct (map fst c) \<and> (\<forall>p \<in> set c. \<exists>n. 0 < n \<and> snd p = Count n))"

definition count_of :: "(string \<times> amount) list \<Rightarrow> string \<Rightarrow> nat" where
  "count_of c k = (case map_of c k of Some (Count n) \<Rightarrow> n | _ \<Rightarrow> 0)"

text \<open>
  Two snapshots with the ids 1, 2, 2, 3 and 2, 3, 3, and one snapshot with the ids 0, 9
  and 10.
\<close>

definition example_load_ids :: "string \<Rightarrow> js_error + json" where
  "example_load_ids p =
     (if p = ''/app/backups/2025-01-02.backup.json''
      then Inr (JArr [example_record (JNum 1), example_record (JNum 2),
                      example_record (JNum 2), example_record (JNum 3)])
      else if p = ''/app/backups/2025-01-03.backup.json''
      then Inr (JArr [example_record (JNum 2), example_record (JNum 3),
                      example_record (JNum 3)])
      else Inl (JsError ''ENOENT'' ''no such file or directory''))"

definition example_load_zero_id :: "string \<Rightarrow> js_error + json" where
  "example_load_zero_id p =
     (if p = ''/app/backups/2025-01-02.backup.json''
      then Inr (JArr [example_record (JNum 0), example_record (JNum 9),
                      example_record (JNum 10)])
      else Inl (JsError ''ENOENT'' ''no such file or directory''))"

section \<open>Reading a snapshot back\<close>



















text \<open>A collection of five records, and the environment whose callback returns it.\<close>

definition example_records :: "json list" where
  "example_records =
     [example_record (JStr ''1''), example_record (JStr ''2''), example_record (JStr ''3''),
      example_record (JStr ''4''), example_record (JStr ''5'')]"

definition example_env_students :: op_env where
  "example_env_students = example_env\<lparr>callbackResult := Inr (JArr example_records)\<rparr>"


lemma example_file_name:
  "generateBackupFileName 1735787045678 = ''backup-2025-01-02-03-04-05.backup.json''"
  by code_simp

section \<open>Properties of the file name\<close>

lemma digit_is_digit: "is_digit (digit n)"
proof -
  have "nat (n mod 10) < 10" by simp
  then have "''0123456789'' ! nat (n mod 10) \<in> set ''0123456789''"
    by (intro nth_mem) simp
  then show ?thesis by (simp add: is_digit_def digit_def)
qed

lemma digit_neq [simp]:
  "digit n \<noteq> CHR ''T''" "digit n \<noteq> CHR '':''" "digit n \<noteq> CHR ''.''"
  "digit n \<noteq> CHR ''/''" "digit n \<noteq> CHR ''-''" "digit n \<noteq> CHR ''Z''"
  "digit n \<noteq> CHR ''b''"
  using digit_is_digit [of n] by (auto simp: is_digit_def)

lemmas digit_neq_sym [simp] = digit_neq [symmetric]

lemma trunc_div:
  fixes t k m :: int
  assumes "0 < k" and "m = 1000 * k"
  shows "(t - t mod 1000) div m = t div m"
proof -
  have "t - t mod 1000 = 1000 * (t div 1000)"
    by (simp only: minus_mod_eq_mult_div)
  then have "(t - t mod 1000) div m = (1000 * (t div 1000)) div (1000 * k)"
    by (simp only: assms(2))
  also have "\<dots> = (t div 1000) div k"
    by (rule div_mult_mult1) simp
  also have "\<dots> = t div (1000 * k)"
    using assms(1) by (simp only: zdiv_zmult2_eq [symmetric] order_less_imp_le)
  finally show ?thesis by (simp only: assms(2))
qed

lemma trunc_Day: "Day (t - t mod 1000) = Day t"
  unfolding Day_def msPerDay_def by (rule trunc_div [of 86400]) simp_all

lemma trunc_Hour: "HourFromTime (t - t mod 1000) = HourFromTime t"
  unfolding HourFromTime_def by (simp only: trunc_div [of 3600 3600000 t, simplified])

lemma trunc_Min: "MinFromTime (t - t mod 1000) = MinFromTime t"
  unfolding MinFromTime_def by (simp only: trunc_div [of 60 60000 t, simplified])

lemma trunc_Sec: "SecFromTime (t - t mod 1000) = SecFromTime t"
  unfolding SecFromTime_def by (simp only: trunc_div [of 1 1000 t, simplified])

lemmas trunc_fields = trunc_Day trunc_Hour trunc_Min trunc_Sec

lemma trunc_calendar:
  "YearFromTime (t - t mod 1000) = YearFromTime t"
  "MonthFromTime (t - t mod 1000) = MonthFromTime t"
  "DateFromTime (t - t mod 1000) = DateFromTime t"
  by (simp_all only: YearFromTime_def MonthFromTime_def DateFromTime_def DayWithinYear_def
        InLeapYear_def trunc_Day)

lemma stamp_trunc: "stamp (t - t mod 1000) = stamp t"
  by (simp only: stamp_def trunc_calendar trunc_fields)

lemma generated_name:
  assumes "0 \<le> YearFromTime now" and "YearFromTime now \<le> 9999"
  shows "generateBackupFileName now = ''backup-'' @ stamp now @ ''.backup.json''"
  using assms
  by (simp add: generateBackupFileName_def toISOString_def iso_year_def stamp_def
        dig2_def dig3_def dig4_def split_first_def)

lemma stamp_pattern: "spec_pattern (''backup-'' @ stamp t @ ''.backup.json'')"
  by (simp add: spec_pattern_def stamp_def dig2_def dig4_def digit_is_digit)

lemma stamp_endsWith: "endsWith (''backup-'' @ stamp t @ ''.backup.json'') ''.backup.json''"
  by (simp add: endsWith_def stamp_def dig2_def dig4_def)

lemma last_segment_join:
  assumes "CHR ''/'' \<notin> set name" and "name \<noteq> []"
  shows "last_segment (path_join d name) = name"
proof -
  have "rev name \<noteq> []" using assms by simp
  then obtain c cs where r: "rev name = c # cs" by (cases "rev name") auto
  have c: "c \<noteq> CHR ''/''" using assms(1) r by (metis list.set_intros(1) set_rev)
  have cs: "\<forall>x \<in> set (rev name). x \<noteq> CHR ''/''" using assms(1) by auto
  have "dropWhile (\<lambda>c. c = CHR ''/'') (rev (path_join d name)) = rev name @ CHR ''/'' # rev d"
    using r c by (simp add: path_join_def)
  moreover have "takeWhile (\<lambda>c. c \<noteq> CHR ''/'') (rev name @ CHR ''/'' # rev d)
      = rev name @ takeWhile (\<lambda>c. c \<noteq> CHR ''/'') (CHR ''/'' # rev d)"
    by (rule takeWhile_append2) (use cs in auto)
  ultimately show ?thesis by (simp add: last_segment_def)
qed

lemma parse_stamp:
  "parseTimestampFromFilename eng (path_join d (''backup-'' @ stamp t @ ''.backup.json''))
     = Date_parse eng (stamp t)"
proof -
  have "last_segment (path_join d (''backup-'' @ stamp t @ ''.backup.json''))
          = ''backup-'' @ stamp t @ ''.backup.json''"
    by (rule last_segment_join) (simp_all add: stamp_def dig2_def dig4_def)
  moreover have "path_join d (''backup-'' @ stamp t @ ''.backup.json'') \<noteq> ''.backup.json''"
    by (simp add: path_join_def stamp_def dig2_def dig4_def append_eq_Cons_conv)
  ultimately show ?thesis
    by (simp add: parseTimestampFromFilename_def path_basename_def endsWith_def startsWith_def
          split_first_def stamp_def dig2_def dig4_def Let_def)
qed

lemma parse_never_decodes:
  "parseTimestampFromFilename eng filename = InvalidDate
   \<or> parseTimestampFromFilename eng filename
       = Date_parse eng (replace_str ''backup-'' [] (path_basename filename ''.backup.json''))"
proof -
  define ts where "ts = replace_str ''backup-'' [] (path_basename filename ''.backup.json'')"
  show ?thesis
  proof (cases "split_first (CHR ''T'') ts = [] \<and> 6 \<le> length (split_on (CHR ''-'') ts)")
    case False
    then show ?thesis
      by (auto simp: parseTimestampFromFilename_def Let_def ts_def)
  next
    case True
    then have "ts \<noteq> []" by auto
    then obtain c r where ts: "ts = c # r" by (cases ts) auto
    with True have c: "c = CHR ''T''" by (auto simp: split_first_def split: if_splits)
    obtain p ps where sp: "split_on (CHR ''-'') ts = (CHR ''T'' # p) # ps"
      using ts c by (cases "split_on (CHR ''-'') r") auto
    have "parseInt (CHR ''T'' # p) = None"
      by (simp add: parseInt_def is_js_space_def startsWith_def radix_digits_def
            digit_value_def Let_def)
    then have "parseInt (split_on (CHR ''-'') ts ! 0) = None" using sp by simp
    then show ?thesis
      using True by (simp add: parseTimestampFromFilename_def Let_def ts_def new_Date_fields_def)
  qed
qed

text \<open>
  C5 (as amended). For every clock reading whose UTC year is 0000 to 9999, the name the
  manager generates is \<^verbatim>\<open>backup-\<close>, the UTC year, month, day, hour, minute and second of
  the reading separated by hyphens, and \<^verbatim>\<open>.backup.json\<close>; it matches the pattern of the
  specification, does not depend on the milliseconds, and ends with the suffix. The
  directory scan of the reporter accepts exactly the names that end with the suffix.
\<close>

theorem generated_name_and_directory_scan:
  assumes "0 \<le> YearFromTime now" and "YearFromTime now \<le> 9999"
  shows "generateBackupFileName now = ''backup-'' @ stamp now @ ''.backup.json''
         \<and> spec_pattern (generateBackupFileName now)
         \<and> generateBackupFileName (now - now mod 1000) = generateBackupFileName now
         \<and> endsWith (generateBackupFileName now) ''.backup.json''
         \<and> getBackupFiles dir (Listing names)
             = Inr (map (path_join (path_resolve dir ''backups''))
                      (filter (\<lambda>file. endsWith file ''.backup.json'') names))"
proof -
  have n: "generateBackupFileName now = ''backup-'' @ stamp now @ ''.backup.json''"
    using assms by (rule generated_name)
  have t: "generateBackupFileName (now - now mod 1000) = generateBackupFileName now"
    using assms by (simp add: generated_name trunc_calendar stamp_trunc)
  have g: "getBackupFiles dir (Listing names)
      = Inr (map (path_join (path_resolve dir ''backups''))
               (filter (\<lambda>file. endsWith file ''.backup.json'') names))"
    by (simp add: getBackupFiles_def)
  have p: "spec_pattern (generateBackupFileName now)"
    unfolding n by (rule stamp_pattern)
  have e: "endsWith (generateBackupFileName now) ''.backup.json''"
    unfolding n by (rule stamp_endsWith)
  from n p t e g show ?thesis by blast
qed

lemma example_year: "YearFromTime 1735787045678 = 2025"
  by code_simp

lemma example_stamp: "stamp 1735787045678 = ''2025-01-02-03-04-05''"
  by code_simp

theorem generated_name_and_directory_scan_witness:
  "0 \<le> YearFromTime 1735787045678 \<and> YearFromTime 1735787045678 \<le> 9999
   \<and> generateBackupFileName 1735787045678 = ''backup-2025-01-02-03-04-05.backup.json''
   \<and> spec_pattern (generateBackupFileName 1735787045678)
   \<and> getBackupFiles ''/app'' (Listing [''backup-2025-01-02-03-04-05.backup.json'', ''notes.txt''])
       = Inr [''/app/backups/backup-2025-01-02-03-04-05.backup.json'']"
  using generated_name_and_directory_scan
          [of 1735787045678 "''/app''" "[''backup-2025-01-02-03-04-05.backup.json'', ''notes.txt'']"]
  by (simp add: example_year example_stamp example_file_name endsWith_def path_join_def
        path_resolve_def startsWith_def spec_pattern_def is_digit_def)

text \<open>
  C5, the claim as stated, fails twice. The directory scan accepts a name that ends with
  the suffix and does not match the pattern. And in a time zone three hours ahead of UTC
  the generated name differs from the name with the fields of the local time.
\<close>

theorem generated_name_and_directory_scan_counterexample:
  "getBackupFiles ''/app'' (Listing [''notes.backup.json''])
     = Inr [''/app/backups/notes.backup.json'']
   \<and> \<not> spec_pattern ''notes.backup.json''
   \<and> generateBackupFileName 1735787045678 = ''backup-2025-01-02-03-04-05.backup.json''
   \<and> spec_local_filename 10800000 1735787045678 = ''backup-2025-01-02-06-04-05.backup.json''
   \<and> generateBackupFileName 1735787045678 \<noteq> spec_local_filename 10800000 1735787045678"
proof -
  have "stamp (1735787045678 + 10800000) = ''2025-01-02-06-04-05''"
    by code_simp
  then show ?thesis
    by (simp add: getBackupFiles_def endsWith_def path_join_def path_resolve_def
          startsWith_def spec_pattern_def spec_local_filename_def example_file_name)
qed

text \<open>
  C1. The reporter's parser is the inverse of the manager's generator. In the code, for
  every generated name (UTC year 0000 to 9999) the parser hands the hyphen-separated
  stamp to \<^verbatim>\<open>new Date(string)\<close>; the branch that decodes the six fields is never reached
  for it, and for no file name at all does that branch give a valid date.
\<close>

theorem parser_of_generated_name:
  assumes "0 \<le> YearFromTime now" and "YearFromTime now \<le> 9999"
  shows "parseTimestampFromFilename eng (path_join d (generateBackupFileName now))
           = Date_parse eng (stamp now)
         \<and> (parseTimestampFromFilename eng filename = InvalidDate
             \<or> parseTimestampFromFilename eng filename
                 = Date_parse eng
                     (replace_str ''backup-'' [] (path_basename filename ''.backup.json'')))"
proof -
  have "parseTimestampFromFilename eng (path_join d (generateBackupFileName now))
          = Date_parse eng (stamp now)"
    unfolding generated_name [OF assms] by (rule parse_stamp)
  then show ?thesis
    using parse_never_decodes [of eng filename] by blast
qed

theorem parser_of_generated_name_witness:
  "0 \<le> YearFromTime 1735787045678 \<and> YearFromTime 1735787045678 \<le> 9999
   \<and> generateBackupFileName 1735787045678 = ''backup-2025-01-02-03-04-05.backup.json''
   \<and> parseTimestampFromFilename example_engine
        ''/app/backups/backup-2025-01-02-03-04-05.backup.json'' = InvalidDate
   \<and> InvalidDate \<noteq> TimeValue (1735787045678 - 1735787045678 mod 1000)"
proof -
  have "iso_Date_parse ''2025-01-02-03-04-05'' = InvalidDate"
    by (simp add: iso_Date_parse_def iso_pattern_def Let_def)
  then show ?thesis
    using parser_of_generated_name
            [of 1735787045678 example_engine "''/app/backups''"
                "''/app/backups/backup-2025-01-02-03-04-05.backup.json''"]
    by (simp add: example_year example_stamp example_file_name path_join_def
          example_engine_def)
qed

section \<open>Properties of the backup manager\<close>

lemma inv_new: "manager_inv (new_BackupManager dir ms)"
  by (simp add: manager_inv_def new_BackupManager_def)

lemma inv_start:
  assumes "manager_inv s" and "intervalId s = None \<longrightarrow> inFlight s = []"
  shows "manager_inv (start s)"
  using assms by (auto simp: manager_inv_def start_def performBackup_enter_def)

lemma inv_stop: "manager_inv s \<Longrightarrow> manager_inv (stop s)"
  by (auto simp: manager_inv_def stop_def)

lemma inv_tick: "manager_inv s \<Longrightarrow> manager_inv (tick s)"
  by (cases "inFlight s"; cases "tl (inFlight s)")
     (auto simp: manager_inv_def tick_def performBackup_enter_def Let_def)

lemma inv_finish: "manager_inv s \<Longrightarrow> manager_inv (performBackup_finish s i env)"
  by (cases "inFlight s"; cases "tl (inFlight s)")
     (auto simp: manager_inv_def performBackup_finish_def Let_def split: sum.splits prod.splits)

lemma inv_immediate: "manager_inv s \<Longrightarrow> manager_inv (run_immediate s)"
  by (auto simp: manager_inv_def run_immediate_def split: list.splits)

lemma inv_step:
  assumes "manager_inv s" and "e = Start \<and> intervalId s = None \<longrightarrow> inFlight s = []"
  shows "manager_inv (step s e)"
proof (cases e)
  case Start
  with assms show ?thesis by (simp add: inv_start)
next
  case Stop
  with assms show ?thesis by (simp add: inv_stop)
next
  case Tick
  with assms show ?thesis by (simp add: inv_tick)
next
  case (Finish i env)
  with assms show ?thesis by (simp add: inv_finish)
next
  case Immediate
  with assms show ?thesis by (simp add: inv_immediate)
qed

lemma inv_run: "calm s es \<Longrightarrow> manager_inv s \<Longrightarrow> manager_inv (run s es)"
proof (induction es arbitrary: s)
  case Nil
  then show ?case by (simp add: run_def)
next
  case (Cons e es)
  have "manager_inv (step s e)" using Cons.prems by (intro inv_step) simp_all
  moreover have "calm (step s e) es" using Cons.prems by simp
  ultimately have "manager_inv (run (step s e) es)" by (rule Cons.IH [rotated])
  then show ?case by (simp add: run_def)
qed

lemma inv_run_process:
  "calm s es \<Longrightarrow> manager_inv s \<Longrightarrow> manager_inv (run_process handled s es)"
proof (induction es arbitrary: s)
  case Nil
  then show ?case by simp
next
  case (Cons e es)
  have "manager_inv (step s e)" using Cons.prems by (intro inv_step) simp_all
  moreover have "calm (step s e) es" using Cons.prems by simp
  ultimately have "manager_inv (run_process handled (step s e) es)" by (rule Cons.IH [rotated])
  then show ?case using Cons.prems(2) by simp
qed

lemma run_process_handled: "run_process True s es = run s es"
  by (induction es arbitrary: s) (simp_all add: run_def alive_def)

lemma run_process_snoc:
  "run_process handled s (es @ [e])
     = (if alive handled (run_process handled s es) then step (run_process handled s es) e
        else run_process handled s es)"
  by (induction es arbitrary: s) simp_all

lemma in_flight_step:
  assumes "i \<in> fst ` set (inFlight s)" and "\<forall>env. e \<noteq> Finish i env"
  shows "i \<in> fst ` set (inFlight (step s e))"
proof (cases e)
  case Start
  then show ?thesis using assms(1) by (auto simp: start_def performBackup_enter_def)
next
  case Stop
  then show ?thesis using assms(1) by (auto simp: stop_def)
next
  case Tick
  then show ?thesis
    using assms(1) by (force simp: tick_def performBackup_enter_def Let_def image_iff)
next
  case (Finish j env)
  then have "j \<noteq> i" using assms(2) by auto
  then show ?thesis
    using assms(1) Finish
    by (force simp: performBackup_finish_def Let_def image_iff split: sum.splits prod.splits)
next
  case Immediate
  then show ?thesis using assms(1) by (auto simp: run_immediate_def split: list.splits)
qed

lemma in_flight_run_process:
  assumes "i \<in> fst ` set (inFlight s)" and "\<forall>env. Finish i env \<notin> set es"
  shows "i \<in> fst ` set (inFlight (run_process handled s es))"
  using assms
proof (induction es arbitrary: s)
  case Nil
  then show ?case by simp
next
  case (Cons e es)
  have "i \<in> fst ` set (inFlight (step s e))"
    using Cons.prems by (intro in_flight_step) auto
  then have "i \<in> fst ` set (inFlight (run_process handled (step s e) es))"
    using Cons.prems(2) by (intro Cons.IH) auto
  then show ?case using Cons.prems(1) by simp
qed

lemma emitted_step: "\<exists>ns. emitted (step s e) = emitted s @ ns"
  by (cases e)
     (auto simp: start_def stop_def tick_def performBackup_enter_def performBackup_finish_def
        run_immediate_def Let_def split: sum.splits prod.splits list.splits)

lemma emitted_run_process: "\<exists>ns. emitted (run_process handled s es) = emitted s @ ns"
proof (induction es arbitrary: s)
  case Nil
  then show ?case by simp
next
  case (Cons e es)
  obtain ns where "emitted (step s e) = emitted s @ ns"
    using emitted_step by blast
  moreover obtain ms where
    "emitted (run_process handled (step s e) es) = emitted (step s e) @ ms"
    using Cons.IH by blast
  ultimately show ?case by simp
qed

lemma finish_emits:
  assumes "i \<in> fst ` set (inFlight s)"
  shows "emitted (performBackup_finish s i env)
           = emitted s
             @ (case performBackup_try (cwd s) (disk s) env of
                  Inr (name, files') \<Rightarrow> [BackupCompleted name]
                | Inl (error, name) \<Rightarrow> [BackupFailed error name, BackupError error])"
  using assms by (simp add: performBackup_finish_def Let_def split: sum.splits prod.splits)

lemma tick_emits:
  assumes "manager_inv s" and "isRunning s"
  shows "emitted (tick s) =
         (if \<exists>p \<in> set (inFlight s). snd p = 2 then emitted s @ [BackupTimeout timeout_error]
          else emitted s)"
  using assms
  by (cases "inFlight s"; cases "tl (inFlight s)")
     (auto simp: manager_inv_def tick_def performBackup_enter_def Let_def isRunning_def)

lemma tick_forced_stop:
  assumes "manager_inv s" and "isRunning s" and "\<exists>p \<in> set (inFlight s). snd p = 2"
  shows "\<not> isRunning (tick s) \<and> \<not> isBackupInProgress (tick s)
         \<and> launched (tick s) = launched s \<and> tick (tick s) = tick s
         \<and> immediates (tick s) = immediates s @ [timeout_error]
         \<and> thrown (tick s) = thrown s
         \<and> fst ` set (inFlight (tick s)) = fst ` set (inFlight s)"
  using assms
  by (cases "inFlight s"; cases "tl (inFlight s)")
     (auto simp: manager_inv_def tick_def performBackup_enter_def Let_def isRunning_def)

lemma finish_resets_counter:
  "i \<in> fst ` set (inFlight s) \<Longrightarrow> pendingIntervalsCount (performBackup_finish s i env) = 0"
  by (simp add: performBackup_finish_def Let_def split: sum.splits prod.splits)

lemmas manager_defs =
  run_def new_BackupManager_def start_def stop_def tick_def performBackup_enter_def
  performBackup_finish_def performBackup_try_def ensureBackupDirectory_def saveToJSON_def
  isRunning_def isArray_def timeout_error_def example_env_def example_env_write_fails_def
  run_immediate_def alive_def example_file_name Let_def

text \<open>
  C2 (as amended). On every calm run of the scheduler, in a process that is alive, a tick
  of the armed timer emits \<^verbatim>\<open>backup:timeout\<close> exactly when the operation in flight has
  already spanned two ticks, so that this tick is its third; the counter is zero when an
  operation is entered and when it finishes. When the timeout fires, exactly one
  \<^verbatim>\<open>backup:timeout\<close> is emitted, the timer is disarmed, the flag is cleared, \<^verbatim>\<open>isRunning()\<close>
  is false, the error is handed to \<^verbatim>\<open>setImmediate\<close> to be thrown, and no later tick enters
  an operation or changes anything. The operation that timed out is not cancelled:
  whatever happens next, the notifications of the forced stop stay in front, and when the
  operation finishes in a process that is still alive, its \<^verbatim>\<open>backup:completed\<close>, or its
  \<^verbatim>\<open>backup:failed\<close> and \<^verbatim>\<open>backup:error\<close>, is emitted after them. In a process whose host
  does not handle the thrown error, nothing happens after the \<^verbatim>\<open>setImmediate\<close> callback.
\<close>

theorem forced_stop_on_third_overlapped_tick:
  assumes "calm (new_BackupManager dir ms) es"
    and "s = run_process handled (new_BackupManager dir ms) es"
    and "isRunning s"
    and "alive handled s"
  shows "emitted (tick s) =
           (if \<exists>p \<in> set (inFlight s). snd p = 2
            then emitted s @ [BackupTimeout timeout_error] else emitted s)
         \<and> ((\<exists>p \<in> set (inFlight s). snd p = 2) \<longrightarrow>
              \<not> isRunning (tick s) \<and> \<not> isBackupInProgress (tick s)
              \<and> launched (tick s) = launched s \<and> tick (tick s) = tick s
              \<and> immediates (tick s) = immediates s @ [timeout_error])
         \<and> pendingIntervalsCount (performBackup_enter s) = 0
         \<and> (\<forall>p \<in> set (inFlight s).
               pendingIntervalsCount (performBackup_finish s (fst p) env) = 0)
         \<and> (\<exists>ns. emitted (run_process handled (tick s) later) = emitted (tick s) @ ns)
         \<and> (\<forall>p \<in> set (inFlight s).
               snd p = 2 \<and> (\<forall>env'. Finish (fst p) env' \<notin> set later)
               \<and> alive handled (run_process handled (tick s) later) \<longrightarrow>
               emitted (run_process handled (tick s) (later @ [Finish (fst p) env]))
                 = emitted (run_process handled (tick s) later)
                   @ (case performBackup_try (cwd (run_process handled (tick s) later))
                             (disk (run_process handled (tick s) later)) env of
                        Inr (name, files') \<Rightarrow> [BackupCompleted name]
                      | Inl (error, name) \<Rightarrow> [BackupFailed error name, BackupError error]))
         \<and> ((\<exists>p \<in> set (inFlight s). snd p = 2) \<and> \<not> handled \<longrightarrow>
              run_process handled (tick s) (Immediate # later) = run_immediate (tick s)
              \<and> thrown (run_immediate (tick s)) \<noteq> [])"
proof -
  have inv: "manager_inv s"
    using assms(1,2) inv_new inv_run_process by simp
  have "pendingIntervalsCount (performBackup_enter s) = 0"
    by (simp add: performBackup_enter_def)
  moreover have "\<forall>p \<in> set (inFlight s).
      pendingIntervalsCount (performBackup_finish s (fst p) env) = 0"
    by (simp add: finish_resets_counter)
  moreover have "emitted (run_process handled (tick s) (later @ [Finish (fst p) env]))
                 = emitted (run_process handled (tick s) later)
                   @ (case performBackup_try (cwd (run_process handled (tick s) later))
                             (disk (run_process handled (tick s) later)) env of
                        Inr (name, files') \<Rightarrow> [BackupCompleted name]
                      | Inl (error, name) \<Rightarrow> [BackupFailed error name, BackupError error])"
    if p: "p \<in> set (inFlight s)" "snd p = 2" "\<forall>env'. Finish (fst p) env' \<notin> set later"
      "alive handled (run_process handled (tick s) later)" for p
  proof -
    have "fst p \<in> fst ` set (inFlight (tick s))"
      using tick_forced_stop [OF inv assms(3)] p(1,2) by auto
    then have "fst p \<in> fst ` set (inFlight (run_process handled (tick s) later))"
      using p(3) by (rule in_flight_run_process)
    then show ?thesis
      using p(4) by (simp add: run_process_snoc finish_emits)
  qed
  moreover have "run_process handled (tick s) (Immediate # later) = run_immediate (tick s)
                 \<and> thrown (run_immediate (tick s)) \<noteq> []"
    if t: "\<exists>p \<in> set (inFlight s). snd p = 2" "\<not> handled"
  proof -
    note f = tick_forced_stop [OF inv assms(3) t(1)]
    have a: "alive handled (tick s)" using assms(4) f by (simp add: alive_def)
    have n: "thrown (run_immediate (tick s)) \<noteq> []"
      using f by (cases "immediates s") (simp_all add: run_immediate_def)
    then have "\<not> alive handled (run_immediate (tick s))" using t(2) by (simp add: alive_def)
    then have "run_process handled (run_immediate (tick s)) later = run_immediate (tick s)"
      by (cases later) simp_all
    then show ?thesis using a n by simp
  qed
  ultimately show ?thesis
    using tick_emits [OF inv assms(3)] tick_forced_stop [OF inv assms(3)]
      emitted_run_process [of handled "tick s" later]
    by blast
qed

theorem forced_stop_on_third_overlapped_tick_witness:
  "calm (new_BackupManager ''/app'' 30000) [Start, Tick, Tick]
   \<and> isRunning (run_process True (new_BackupManager ''/app'' 30000) [Start, Tick, Tick])
   \<and> alive True (run_process True (new_BackupManager ''/app'' 30000) [Start, Tick, Tick])
   \<and> (\<exists>p \<in> set (inFlight (run_process True (new_BackupManager ''/app'' 30000)
                              [Start, Tick, Tick])). snd p = 2)
   \<and> emitted (tick (run_process True (new_BackupManager ''/app'' 30000) [Start, Tick, Tick]))
       = [BackupStarted 30, BackupTimeout timeout_error]
   \<and> \<not> isRunning (tick (run_process True (new_BackupManager ''/app'' 30000) [Start, Tick, Tick]))
   \<and> emitted (run_process True
                (tick (run_process True (new_BackupManager ''/app'' 30000) [Start, Tick, Tick]))
                ([Immediate] @ [Finish 0 example_env]))
       = [BackupStarted 30, BackupTimeout timeout_error,
          BackupCompleted ''backup-2025-01-02-03-04-05.backup.json'']
   \<and> isRunning (run_process False (new_BackupManager ''/app'' 30000) [Start, Tick, Tick])
   \<and> alive False (run_process False (new_BackupManager ''/app'' 30000) [Start, Tick, Tick])
   \<and> emitted (run_process False
                (tick (run_process False (new_BackupManager ''/app'' 30000) [Start, Tick, Tick]))
                [Immediate, Finish 0 example_env])
       = [BackupStarted 30, BackupTimeout timeout_error]
   \<and> thrown (run_process False
                (tick (run_process False (new_BackupManager ''/app'' 30000) [Start, Tick, Tick]))
                [Immediate, Finish 0 example_env])
       = [timeout_error]"
proof -
  define s where "s = run_process True (new_BackupManager ''/app'' 30000) [Start, Tick, Tick]"
  define u where "u = run_process False (new_BackupManager ''/app'' 30000) [Start, Tick, Tick]"
  have c: "calm (new_BackupManager ''/app'' 30000) [Start, Tick, Tick]"
    by (simp add: manager_defs)
  have r: "isRunning s"
    by (simp add: s_def manager_defs)
  have a: "alive True s"
    by (simp add: alive_def)
  have f: "inFlight s = [(0, 2)]"
    by (simp add: s_def manager_defs)
  have e: "emitted s = [BackupStarted 30]"
    by (simp add: s_def manager_defs)
  have l: "alive True (run_process True (tick s) [Immediate])"
    by (simp add: alive_def)
  have t: "emitted (run_immediate (tick s)) = [BackupStarted 30, BackupTimeout timeout_error]"
    "cwd (run_immediate (tick s)) = ''/app''"
    "disk (run_immediate (tick s)) = Map.empty"
    by (simp_all add: s_def manager_defs)
  have y: "performBackup_try ''/app'' Map.empty example_env
             = Inr (''backup-2025-01-02-03-04-05.backup.json'',
                    [''/app/backups/backup-2025-01-02-03-04-05.backup.json''
                       \<mapsto> JSON_stringify (JArr [])])"
    by (simp add: manager_defs path_join_def path_resolve_def startsWith_def)
  note th = forced_stop_on_third_overlapped_tick
              [OF c s_def r a, where later = "[Immediate]" and env = example_env]
  have live: "emitted (tick s) = [BackupStarted 30, BackupTimeout timeout_error]"
    "\<not> isRunning (tick s)"
    "emitted (run_process True (tick s) ([Immediate] @ [Finish 0 example_env]))
       = [BackupStarted 30, BackupTimeout timeout_error,
          BackupCompleted ''backup-2025-01-02-03-04-05.backup.json'']"
    using th l by (simp_all add: f e t y alive_def)
  have ru: "isRunning u"
    by (simp add: u_def manager_defs)
  have au: "alive False u"
    by (simp add: u_def manager_defs)
  have fu: "inFlight u = [(0, 2)]"
    by (simp add: u_def manager_defs)
  have tu: "emitted (run_immediate (tick u)) = [BackupStarted 30, BackupTimeout timeout_error]"
    "thrown (run_immediate (tick u)) = [timeout_error]"
    by (simp_all add: u_def manager_defs)
  note tf = forced_stop_on_third_overlapped_tick
              [OF c u_def ru au, where later = "[Finish 0 example_env]" and env = example_env]
  have "run_process False (tick u) [Immediate, Finish 0 example_env] = run_immediate (tick u)"
    using tf by (simp add: fu)
  then have dead: "emitted (run_process False (tick u) [Immediate, Finish 0 example_env])
          = [BackupStarted 30, BackupTimeout timeout_error]"
    "thrown (run_process False (tick u) [Immediate, Finish 0 example_env]) = [timeout_error]"
    by (simp_all only: tu)
  show ?thesis
    using c r a f live ru au dead unfolding s_def u_def by simp
qed

text \<open>
  C2, the claim as stated, fails twice. The operation that timed out still runs to its end,
  and its \<^verbatim>\<open>backup:completed\<close> is emitted after the forced stop: in a process whose host
  handles the thrown error, and in any process when the operation ends before the
  \<^verbatim>\<open>setImmediate\<close> callback runs. And on a run that is not calm, operation 0 spans three
  ticks without finishing and no timeout is emitted.
\<close>

theorem forced_stop_counterexample:
  "emitted (run_process True (new_BackupManager ''/app'' 30000)
              [Start, Tick, Tick, Tick, Immediate, Finish 0 example_env])
     = [BackupStarted 30, BackupTimeout timeout_error,
        BackupCompleted ''backup-2025-01-02-03-04-05.backup.json'']
   \<and> emitted (run_process False (new_BackupManager ''/app'' 30000)
                [Start, Tick, Tick, Tick, Finish 0 example_env, Immediate])
       = [BackupStarted 30, BackupTimeout timeout_error,
          BackupCompleted ''backup-2025-01-02-03-04-05.backup.json'']
   \<and> inFlight (run (new_BackupManager ''/app'' 30000) [Start, Tick, Tick, Stop, Start, Tick])
       = [(0, 3), (1, 1)]
   \<and> emitted (run (new_BackupManager ''/app'' 30000) [Start, Tick, Tick, Stop, Start, Tick])
       = [BackupStarted 30, BackupStopped, BackupStarted 30]"
  by (simp add: manager_defs)

text \<open>
  C3. At most one snapshot operation is in flight at any time. The timer callback enters
  an operation only when the flag is clear, but \<^verbatim>\<open>start()\<close> enters one whatever the flag
  says: after \<^verbatim>\<open>start()\<close>, \<^verbatim>\<open>stop()\<close>, \<^verbatim>\<open>start()\<close>, with the first operation still awaiting
  its file system call, two operations are in flight.
\<close>

theorem restart_overlaps_operations:
  "inFlight (run (new_BackupManager dir ms) [Start, Stop, Start]) = [(0, 0), (1, 0)]"
  by (simp add: manager_defs)

text \<open>
  C7. \<^verbatim>\<open>start()\<close> is idempotent. On a running manager it emits \<^verbatim>\<open>backup:already-running\<close>
  and changes nothing else. On a manager that is not running it emits \<^verbatim>\<open>backup:started\<close>
  with the interval in seconds, arms one timer and enters the first snapshot operation at
  once; a second \<^verbatim>\<open>start()\<close> right after adds one \<^verbatim>\<open>backup:already-running\<close> and nothing
  more, so that one timer has been armed. The operation entered by \<^verbatim>\<open>start()\<close> is performed
  without waiting for the timer: when its work ends, before any tick, its outcome is
  notified, and when the directory is there, the callback returns an array and the write
  succeeds, the snapshot file holds the array and \<^verbatim>\<open>backup:completed\<close> carries its name.
\<close>

theorem start_idempotent:
  assumes "isRunning r" and "\<not> isRunning s"
  shows "start r = r\<lparr>emitted := emitted r @ [BackupAlreadyRunning]\<rparr>
         \<and> emitted (start (start s))
             = emitted s @ [BackupStarted (of_int (backupInterval s) / 1000), BackupAlreadyRunning]
         \<and> start (start s) = (start s)\<lparr>emitted := emitted (start s) @ [BackupAlreadyRunning]\<rparr>
         \<and> timersArmed (start (start s)) = timersArmed s + 1
         \<and> isRunning (start s)
         \<and> isBackupInProgress (start s)
         \<and> launched (start s) = launched s + 1
         \<and> inFlight (start s) = inFlight s @ [(launched s, 0)]
         \<and> emitted (run s [Start, Finish (launched s) env])
             = emitted s @ [BackupStarted (of_int (backupInterval s) / 1000)]
               @ (case performBackup_try (cwd s) (disk s) env of
                    Inr (name, files') \<Rightarrow> [BackupCompleted name]
                  | Inl (error, name) \<Rightarrow> [BackupFailed error name, BackupError error])
         \<and> (ensureBackupDirectory env = None \<and> callbackResult env = Inr (JArr records)
              \<and> writeResult env = None \<longrightarrow>
              emitted (run s [Start, Finish (launched s) env])
                = emitted s @ [BackupStarted (of_int (backupInterval s) / 1000),
                               BackupCompleted (generateBackupFileName (clock env))]
              \<and> disk (run s [Start, Finish (launched s) env])
                    (path_resolve (cwd s)
                       (path_join ''backups'' (generateBackupFileName (clock env))))
                  = Some (JSON_stringify (JArr records)))"
proof -
  have st: "start s = performBackup_enter
              (s\<lparr>emitted := emitted s @ [BackupStarted (of_int (backupInterval s) / 1000)],
                 intervalId := Some (timersArmed s), timersArmed := timersArmed s + 1\<rparr>)"
    using assms(2) by (simp add: start_def isRunning_def)
  have i: "launched s \<in> fst ` set (inFlight (start s))"
    by (simp add: st performBackup_enter_def)
  have cd: "cwd (start s) = cwd s" "disk (start s) = disk s"
    "emitted (start s) = emitted s @ [BackupStarted (of_int (backupInterval s) / 1000)]"
    by (simp_all add: st performBackup_enter_def)
  have r: "run s [Start, Finish (launched s) env] = performBackup_finish (start s) (launched s) env"
    by (simp add: run_def)
  have e: "emitted (run s [Start, Finish (launched s) env])
             = emitted s @ [BackupStarted (of_int (backupInterval s) / 1000)]
               @ (case performBackup_try (cwd s) (disk s) env of
                    Inr (name, files') \<Rightarrow> [BackupCompleted name]
                  | Inl (error, name) \<Rightarrow> [BackupFailed error name, BackupError error])"
    unfolding r using finish_emits [OF i, of env] by (simp add: cd)
  have ok: "emitted (run s [Start, Finish (launched s) env])
                = emitted s @ [BackupStarted (of_int (backupInterval s) / 1000),
                               BackupCompleted (generateBackupFileName (clock env))]
              \<and> disk (run s [Start, Finish (launched s) env])
                    (path_resolve (cwd s)
                       (path_join ''backups'' (generateBackupFileName (clock env))))
                  = Some (JSON_stringify (JArr records))"
    if h: "ensureBackupDirectory env = None" "callbackResult env = Inr (JArr records)"
      "writeResult env = None"
  proof -
    have t: "performBackup_try (cwd s) (disk s) env
               = Inr (generateBackupFileName (clock env),
                      (disk s)(path_resolve (cwd s)
                                 (path_join ''backups'' (generateBackupFileName (clock env)))
                               \<mapsto> JSON_stringify (JArr records)))"
      using h by (simp add: performBackup_try_def saveToJSON_def isArray_def Let_def)
    have "disk (performBackup_finish (start s) (launched s) env)
            = (disk s)(path_resolve (cwd s)
                         (path_join ''backups'' (generateBackupFileName (clock env)))
                       \<mapsto> JSON_stringify (JArr records))"
      using i t by (simp add: performBackup_finish_def Let_def cd)
    then show ?thesis using e t by (simp add: r)
  qed
  have "start r = r\<lparr>emitted := emitted r @ [BackupAlreadyRunning]\<rparr>"
    using assms(1) by (simp add: start_def isRunning_def)
  moreover have "emitted (start (start s))
             = emitted s @ [BackupStarted (of_int (backupInterval s) / 1000), BackupAlreadyRunning]"
    "start (start s) = (start s)\<lparr>emitted := emitted (start s) @ [BackupAlreadyRunning]\<rparr>"
    "timersArmed (start (start s)) = timersArmed s + 1"
    "isRunning (start s)" "isBackupInProgress (start s)"
    "launched (start s) = launched s + 1"
    "inFlight (start s) = inFlight s @ [(launched s, 0)]"
    using assms(2) by (simp_all add: start_def isRunning_def performBackup_enter_def)
  ultimately show ?thesis using e ok by blast
qed

theorem start_idempotent_witness:
  "isRunning (start (new_BackupManager ''/app'' 30000))
   \<and> \<not> isRunning (new_BackupManager ''/app'' 30000)
   \<and> emitted (start (start (new_BackupManager ''/app'' 30000)))
       = [BackupStarted 30, BackupAlreadyRunning]
   \<and> timersArmed (start (start (new_BackupManager ''/app'' 30000))) = 1
   \<and> inFlight (start (new_BackupManager ''/app'' 30000)) = [(0, 0)]
   \<and> ensureBackupDirectory example_env_students = None
   \<and> callbackResult example_env_students = Inr (JArr example_records)
   \<and> writeResult example_env_students = None
   \<and> emitted (run (new_BackupManager ''/app'' 30000) [Start, Finish 0 example_env_students])
       = [BackupStarted 30, BackupCompleted ''backup-2025-01-02-03-04-05.backup.json'']
   \<and> disk (run (new_BackupManager ''/app'' 30000) [Start, Finish 0 example_env_students])
         ''/app/backups/backup-2025-01-02-03-04-05.backup.json''
       = Some (JSON_stringify (JArr example_records))"
proof -
  have r: "isRunning (start (new_BackupManager ''/app'' 30000))"
    by (simp add: manager_defs)
  have s: "\<not> isRunning (new_BackupManager ''/app'' 30000)"
    by (simp add: manager_defs)
  have e: "ensureBackupDirectory example_env_students = None"
    and c: "callbackResult example_env_students = Inr (JArr example_records)"
    and w: "writeResult example_env_students = None"
    and k: "clock example_env_students = 1735787045678"
    by (simp_all add: example_env_students_def manager_defs)
  have n: "launched (new_BackupManager ''/app'' 30000) = 0"
    "emitted (new_BackupManager ''/app'' 30000) = []"
    "backupInterval (new_BackupManager ''/app'' 30000) = 30000"
    "timersArmed (new_BackupManager ''/app'' 30000) = 0"
    "inFlight (new_BackupManager ''/app'' 30000) = []"
    "cwd (new_BackupManager ''/app'' 30000) = ''/app''"
    "disk (new_BackupManager ''/app'' 30000) = Map.empty"
    by (simp_all add: new_BackupManager_def)
  have st: "emitted (start (new_BackupManager ''/app'' 30000)) = [BackupStarted 30]"
    "timersArmed (start (new_BackupManager ''/app'' 30000)) = 1"
    by (simp_all add: manager_defs)
  have p: "path_resolve ''/app'' (path_join ''backups'' ''backup-2025-01-02-03-04-05.backup.json'')
             = ''/app/backups/backup-2025-01-02-03-04-05.backup.json''"
    by (simp add: path_join_def path_resolve_def startsWith_def)
  have y: "performBackup_try ''/app'' Map.empty example_env_students
             = Inr (''backup-2025-01-02-03-04-05.backup.json'',
                    [''/app/backups/backup-2025-01-02-03-04-05.backup.json''
                       \<mapsto> JSON_stringify (JArr example_records)])"
    by (simp add: performBackup_try_def saveToJSON_def isArray_def Let_def e c w k p
          example_file_name)
  show ?thesis
    using start_idempotent [OF r s, where env = example_env_students and records = example_records]
      r s e c w
    by (simp add: n k p st y example_file_name)
qed

text \<open>
  C10. When a snapshot operation entered by the scheduler fails, the manager emits
  \<^verbatim>\<open>backup:failed\<close> with the error and the file name, which is null unless the directory
  was there, the callback returned an array and the name had been computed, and then
  \<^verbatim>\<open>backup:error\<close> with the same error.
\<close>

theorem failed_backup_emits_failed_then_error:
  assumes "i \<in> fst ` set (inFlight s)"
    and "performBackup_try (cwd s) (disk s) env = Inl (error, name)"
  shows "emitted (performBackup_finish s i env)
           = emitted s @ [BackupFailed error name, BackupError error]
         \<and> name = (if ensureBackupDirectory env = None
                      \<and> (\<exists>v. callbackResult env = Inr v \<and> isArray v)
                    then Some (generateBackupFileName (clock env)) else None)"
  using assms
  by (auto simp: performBackup_finish_def performBackup_try_def saveToJSON_def Let_def
           split: option.splits sum.splits if_splits)

theorem failed_backup_emits_failed_then_error_witness:
  "0 \<in> fst ` set (inFlight (start (new_BackupManager ''/app'' 30000)))
   \<and> performBackup_try ''/app'' Map.empty example_env_write_fails
       = Inl (JsError ''ENOSPC'' ''no space left'',
              Some ''backup-2025-01-02-03-04-05.backup.json'')
   \<and> emitted (performBackup_finish (start (new_BackupManager ''/app'' 30000)) 0
                example_env_write_fails)
       = [BackupStarted 30,
          BackupFailed (JsError ''ENOSPC'' ''no space left'')
            (Some ''backup-2025-01-02-03-04-05.backup.json''),
          BackupError (JsError ''ENOSPC'' ''no space left'')]"
proof -
  have i: "0 \<in> fst ` set (inFlight (start (new_BackupManager ''/app'' 30000)))"
    by (simp add: manager_defs)
  have t: "performBackup_try (cwd (start (new_BackupManager ''/app'' 30000)))
             (disk (start (new_BackupManager ''/app'' 30000))) example_env_write_fails
           = Inl (JsError ''ENOSPC'' ''no space left'',
                  Some ''backup-2025-01-02-03-04-05.backup.json'')"
    by (simp add: manager_defs)
  show ?thesis
    using failed_backup_emits_failed_then_error [OF i t] i t by (simp add: manager_defs)
qed

section \<open>Properties of the snapshot serialisation\<close>







lemma parse_QuoteJSONString:
  "QuoteJSONString s @ rest = CHR 0x22 # concat (map quote_char s) @ CHR 0x22 # rest"
  by (simp add: QuoteJSONString_def)















































section \<open>Properties of the backup reporter\<close>

lemma set_obj_insert: "set (obj_insert ob k v) = insert (k, v) (set ob)"
  by (induction ob) (auto split: option.splits)

lemma distinct_obj_insert:
  "distinct (map fst (obj_insert ob k v)) = (k \<notin> fst ` set ob \<and> distinct (map fst ob))"
  by (induction ob) (auto simp: set_obj_insert split: option.splits)

lemma map_fst_update: "map fst (map (\<lambda>p. if fst p = k then (k, v) else p) ob) = map fst ob"
  by (induction ob) auto

lemma obj_set_keys: "fst ` set (obj_set ob k v) = insert k (fst ` set ob)"
proof (cases "k \<in> fst ` set ob")
  case True
  have "fst ` set (map (\<lambda>p. if fst p = k then (k, v) else p) ob)
          = set (map fst (map (\<lambda>p. if fst p = k then (k, v) else p) ob))"
    by (simp only: set_map)
  also have "\<dots> = fst ` set ob" by (simp only: map_fst_update set_map)
  finally show ?thesis using True by (auto simp: obj_set_def)
next
  case False
  then show ?thesis by (simp add: obj_set_def set_obj_insert)
qed

lemma distinct_obj_set:
  "distinct (map fst ob) \<Longrightarrow> distinct (map fst (obj_set ob k v))"
  by (simp add: obj_set_def distinct_obj_insert map_fst_update del: map_map)

lemma set_obj_set:
  "distinct (map fst ob) \<Longrightarrow>
   set (obj_set ob k v) = insert (k, v) {p \<in> set ob. fst p \<noteq> k}"
  by (auto simp: obj_set_def set_obj_insert image_iff split: if_splits)

lemma map_of_obj_set:
  assumes "distinct (map fst ob)"
  shows "map_of (obj_set ob k v) = (map_of ob)(k \<mapsto> v)"
proof (rule ext)
  fix x
  have d: "distinct (map fst (obj_set ob k v))" using assms by (rule distinct_obj_set)
  show "map_of (obj_set ob k v) x = ((map_of ob)(k \<mapsto> v)) x"
  proof (cases "map_of (obj_set ob k v) x")
    case None
    then have "x \<notin> fst ` set (obj_set ob k v)" by (simp add: map_of_eq_None_iff)
    then have x: "x \<noteq> k" "x \<notin> fst ` set ob" by (auto simp: obj_set_keys)
    then have "map_of ob x = None" by (simp add: map_of_eq_None_iff)
    then show ?thesis using None x by simp
  next
    case (Some y)
    then have "(x, y) \<in> set (obj_set ob k v)" using d by simp
    then have "(x, y) = (k, v) \<or> ((x, y) \<in> set ob \<and> x \<noteq> k)"
      using assms by (auto simp: set_obj_set)
    then show ?thesis using Some assms by auto
  qed
qed

lemma count_id_plain:
  assumes "plain_key k" and "counts_ok c"
  shows "counts_ok (count_id c k) \<and> count_of (count_id c k) = (count_of c)(k := count_of c k + 1)"
proof -
  have d: "distinct (map fst c)" using assms(2) by (simp add: counts_ok_def)
  show ?thesis
  proof (cases "map_of c k")
    case None
    then have e: "count_id c k = obj_set c k (Count 1)"
      using assms(1) by (simp add: count_id_def plain_key_def)
    have "counts_ok (obj_set c k (Count 1))"
      using assms(2) d by (auto simp: counts_ok_def distinct_obj_set set_obj_set)
    moreover have "count_of (obj_set c k (Count 1)) = (count_of c)(k := count_of c k + 1)"
      using None d by (auto simp: count_of_def map_of_obj_set fun_eq_iff)
    ultimately show ?thesis by (simp add: e)
  next
    case (Some a)
    then have "(k, a) \<in> set c" by (rule map_of_SomeD)
    then obtain n where n: "a = Count n" "0 < n"
      using assms(2) by (auto simp: counts_ok_def)
    then have e: "count_id c k = obj_set c k (Count (n + 1))"
      using Some by (simp add: count_id_def)
    have "counts_ok (obj_set c k (Count (n + 1)))"
      using assms(2) d by (auto simp: counts_ok_def distinct_obj_set set_obj_set)
    moreover have "count_of (obj_set c k (Count (n + 1))) = (count_of c)(k := count_of c k + 1)"
      using Some n d by (auto simp: count_of_def map_of_obj_set fun_eq_iff)
    ultimately show ?thesis by (simp add: e)
  qed
qed

lemma forEach_count_plain:
  assumes "counts_ok c"
    and "\<forall>st \<in> set recs. \<forall>i. counted_id st = Some i \<longrightarrow>
           (\<exists>k. to_property_key i = Some k \<and> plain_key k)"
  shows "\<exists>c'. forEach_count c recs = Inr c' \<and> counts_ok c'
           \<and> (\<forall>k. count_of c' k
                 = count_of c k + length (filter (\<lambda>st. counted_key st = Some k) recs))"
  using assms
proof (induction recs arbitrary: c)
  case Nil
  then show ?case by simp
next
  case (Cons st recs)
  show ?case
  proof (cases "counted_id st")
    case None
    then show ?thesis using Cons by (simp add: counted_key_def)
  next
    case (Some i)
    then obtain k where k: "to_property_key i = Some k" "plain_key k"
      using Cons.prems(2) by auto
    have ok: "counts_ok (count_id c k)"
      and cnt: "count_of (count_id c k) = (count_of c)(k := count_of c k + 1)"
      using count_id_plain [OF k(2) Cons.prems(1)] by auto
    obtain c' where c': "forEach_count (count_id c k) recs = Inr c'" "counts_ok c'"
      "\<forall>x. count_of c' x
         = count_of (count_id c k) x + length (filter (\<lambda>st. counted_key st = Some x) recs)"
      using Cons.IH [OF ok] Cons.prems(2) by auto
    show ?thesis
      using Some k c' cnt by (auto simp: counted_key_def)
  qed
qed


lemma surviving_records_Cons:
  "surviving_records load (f # fs) = surviving_records load [f] @ surviving_records load fs"
  by (simp add: surviving_records_def)

lemma nonempty_surviving_Cons:
  "nonempty_surviving load (f # fs) = nonempty_surviving load [f] + nonempty_surviving load fs"
  by (simp add: nonempty_surviving_def)

lemma plain_records_iff:
  "plain_records recs =
     (\<forall>st \<in> set recs. \<forall>i. counted_id st = Some i \<longrightarrow>
        (\<exists>k. to_property_key i = Some k \<and> plain_key k))"
  unfolding plain_records_def list_all_iff
  by (intro ball_cong refl) (auto split: option.splits)

lemma plain_records_append:
  "plain_records (xs @ ys) = (plain_records xs \<and> plain_records ys)"
  by (simp add: plain_records_def)

lemma process_file_plain:
  assumes "counts_ok (studentIdCounts acc)" and "plain_records (surviving_records load [f])"
  shows "counts_ok (studentIdCounts (process_file eng load acc f))
         \<and> (\<forall>k. count_of (studentIdCounts (process_file eng load acc f)) k
               = count_of (studentIdCounts acc) k
                 + length (filter (\<lambda>st. counted_key st = Some k) (surviving_records load [f])))
         \<and> totalStudents (process_file eng load acc f)
             = totalStudents acc + length (surviving_records load [f])
         \<and> totalFilesWithStudents (process_file eng load acc f)
             = totalFilesWithStudents acc + nonempty_surviving load [f]"
proof (cases "load f")
  case (Inl e)
  then show ?thesis
    using assms(1) by (simp add: process_file_def surviving_records_def nonempty_surviving_def)
next
  case (Inr students)
  show ?thesis
  proof (cases "\<exists>recs. students = JArr recs")
    case False
    then show ?thesis
      using assms(1) Inr
      by (cases students)
         (simp_all add: process_file_def surviving_records_def nonempty_surviving_def)
  next
    case True
    then obtain recs where recs: "students = JArr recs" by auto
    define acc1 where "acc1 =
      (if (case latestDate acc of None \<Rightarrow> True
           | Some d \<Rightarrow> date_gt (parseTimestampFromFilename eng f) d)
       then acc\<lparr>latestDate := Some (parseTimestampFromFilename eng f),
                latestFile := Some (last_segment f)\<rparr>
       else acc)"
    have a1: "studentIdCounts acc1 = studentIdCounts acc" "totalStudents acc1 = totalStudents acc"
      "totalFilesWithStudents acc1 = totalFilesWithStudents acc"
      by (simp_all add: acc1_def)
    have sr: "surviving_records load [f] = recs"
      using Inr recs by (simp add: surviving_records_def)
    have pl: "\<forall>st \<in> set recs. \<forall>i. counted_id st = Some i \<longrightarrow>
           (\<exists>k. to_property_key i = Some k \<and> plain_key k)"
      using assms(2) sr by (simp add: plain_records_iff)
    obtain c' where c': "forEach_count (studentIdCounts acc1) recs = Inr c'" "counts_ok c'"
      "\<forall>k. count_of c' k = count_of (studentIdCounts acc1) k
              + length (filter (\<lambda>st. counted_key st = Some k) recs)"
      using forEach_count_plain [OF _ pl, of "studentIdCounts acc1"] assms(1) a1 by auto
    have pf: "process_file eng load acc f =
        acc1\<lparr>studentIdCounts := c', totalStudents := totalStudents acc1 + length recs,
             totalFilesWithStudents :=
               totalFilesWithStudents acc1 + (if 0 < length recs then 1 else 0)\<rparr>"
      using Inr recs c'(1) by (simp add: process_file_def acc1_def Let_def)
    have ne: "nonempty_surviving load [f] = (if 0 < length recs then 1 else 0)"
      using Inr recs by (simp add: nonempty_surviving_def)
    show ?thesis
      using c'(2,3) a1 by (simp add: pf sr ne)
  qed
qed

lemma fold_process_plain:
  assumes "counts_ok (studentIdCounts acc)" and "plain_records (surviving_records load fs)"
  shows "counts_ok (studentIdCounts (foldl (process_file eng load) acc fs))
         \<and> (\<forall>k. count_of (studentIdCounts (foldl (process_file eng load) acc fs)) k
               = count_of (studentIdCounts acc) k
                 + length (filter (\<lambda>st. counted_key st = Some k) (surviving_records load fs)))
         \<and> totalStudents (foldl (process_file eng load) acc fs)
             = totalStudents acc + length (surviving_records load fs)
         \<and> totalFilesWithStudents (foldl (process_file eng load) acc fs)
             = totalFilesWithStudents acc + nonempty_surviving load fs"
  using assms
proof (induction fs arbitrary: acc)
  case Nil
  then show ?case by (simp add: surviving_records_def nonempty_surviving_def)
next
  case (Cons f fs)
  have p: "plain_records (surviving_records load [f])" "plain_records (surviving_records load fs)"
    using Cons.prems(2) surviving_records_Cons [of load f fs] by (simp_all add: plain_records_append)
  note step = process_file_plain [OF Cons.prems(1) p(1), of eng]
  note rest = Cons.IH [OF conjunct1 [OF step] p(2)]
  show ?case
    using step rest
    by (simp add: surviving_records_Cons [of load f fs] nonempty_surviving_Cons [of load f fs])
qed

lemma set_insert_sorted: "set (insert_sorted c x ys) = insert x (set ys)"
  by (induction ys) auto

lemma distinct_insert_sorted:
  "distinct (map fst (insert_sorted c x ys)) = (fst x \<notin> fst ` set ys \<and> distinct (map fst ys))"
  by (induction ys) (auto simp: set_insert_sorted)

lemma sorted_insert_sorted:
  assumes "\<forall>a b. c a b \<le> 0 \<or> c b a \<le> 0"
    and "\<forall>a b d. c a b \<le> 0 \<longrightarrow> c b d \<le> 0 \<longrightarrow> c a d \<le> 0"
    and "sorted_wrt (\<lambda>p q. c (fst p) (fst q) \<le> 0) ys"
  shows "sorted_wrt (\<lambda>p q. c (fst p) (fst q) \<le> 0) (insert_sorted c x ys)"
  using assms(3)
proof (induction ys)
  case Nil
  then show ?case by simp
next
  case (Cons y ys)
  show ?case
  proof (cases "c (fst y) (fst x) \<le> 0")
    case True
    then show ?thesis using Cons by (auto simp: set_insert_sorted)
  next
    case False
    then have xy: "c (fst x) (fst y) \<le> 0" using assms(1) by blast
    have "\<forall>z \<in> set ys. c (fst x) (fst z) \<le> 0"
      using Cons.prems xy assms(2) by (metis sorted_wrt.simps(2))
    then show ?thesis using False xy Cons.prems by simp
  qed
qed

lemma js_sort_fold:
  assumes "\<forall>a b. c a b \<le> 0 \<or> c b a \<le> 0"
    and "\<forall>a b d. c a b \<le> 0 \<longrightarrow> c b d \<le> 0 \<longrightarrow> c a d \<le> 0"
    and "sorted_wrt (\<lambda>p q. c (fst p) (fst q) \<le> 0) acc"
    and "distinct (map fst (acc @ xs))"
  shows "sorted_wrt (\<lambda>p q. c (fst p) (fst q) \<le> 0) (foldl (\<lambda>s x. insert_sorted c x s) acc xs)
         \<and> set (foldl (\<lambda>s x. insert_sorted c x s) acc xs) = set acc \<union> set xs
         \<and> distinct (map fst (foldl (\<lambda>s x. insert_sorted c x s) acc xs))"
  using assms(3,4)
proof (induction xs arbitrary: acc)
  case Nil
  then show ?case by simp
next
  case (Cons x xs)
  have s: "sorted_wrt (\<lambda>p q. c (fst p) (fst q) \<le> 0) (insert_sorted c x acc)"
    using assms(1,2) Cons.prems(1) by (rule sorted_insert_sorted)
  have d: "distinct (map fst (insert_sorted c x acc @ xs))"
    using Cons.prems(2) by (auto simp: distinct_insert_sorted set_insert_sorted)
  show ?case
    using Cons.IH [OF s d] by (auto simp: set_insert_sorted)
qed

lemma js_sort_props:
  assumes "\<forall>a b. c a b \<le> 0 \<or> c b a \<le> 0"
    and "\<forall>a b d. c a b \<le> 0 \<longrightarrow> c b d \<le> 0 \<longrightarrow> c a d \<le> 0"
    and "distinct (map fst xs)"
  shows "sorted_wrt (\<lambda>p q. c (fst p) (fst q) \<le> 0) (js_sort c xs)
         \<and> distinct (map fst (js_sort c xs)) \<and> map_of (js_sort c xs) = map_of xs"
proof -
  have f: "sorted_wrt (\<lambda>p q. c (fst p) (fst q) \<le> 0) (js_sort c xs)
           \<and> set (js_sort c xs) = set [] \<union> set xs \<and> distinct (map fst (js_sort c xs))"
    unfolding js_sort_def using assms by (intro js_sort_fold) simp_all
  then have "map_of (js_sort c xs) = map_of xs"
    using assms(3) by (simp add: map_of_inject_set)
  then show ?thesis using f by simp
qed

lemma count_of_map_of:
  assumes "counts_ok c"
  shows "map_of c k = (if count_of c k = 0 then None else Some (Count (count_of c k)))"
proof (cases "map_of c k")
  case None
  then show ?thesis by (simp add: count_of_def)
next
  case (Some a)
  then have "(k, a) \<in> set c" by (rule map_of_SomeD)
  then obtain n where "a = Count n" "0 < n" using assms by (auto simp: counts_ok_def)
  then show ?thesis using Some by (simp add: count_of_def)
qed

lemma bit_length_pos: "0 < n \<Longrightarrow> 0 < bit_length n"
  by (subst bit_length.simps) simp

lemma bit_length_bounds: "0 < n \<Longrightarrow> 2 ^ (bit_length n - 1) \<le> n \<and> n < 2 ^ bit_length n"
proof (induction n rule: bit_length.induct)
  case (1 n)
  have b: "bit_length n = Suc (bit_length (n div 2))"
    using 1(2) by (subst bit_length.simps) simp
  show ?case
  proof (cases "n div 2 = 0")
    case True
    then have "n = 1" using 1(2) by linarith
    then show ?thesis by (simp add: bit_length.simps)
  next
    case False
    then have ih: "2 ^ (bit_length (n div 2) - 1) \<le> n div 2" "n div 2 < 2 ^ bit_length (n div 2)"
      using 1 by auto
    obtain j where j: "bit_length (n div 2) = Suc j"
      using False bit_length_pos [of "n div 2"] by (cases "bit_length (n div 2)") auto
    define h where "h = n div 2"
    define P :: nat where "P = 2 ^ j"
    have h: "P \<le> h" "h < 2 * P" using ih j by (simp_all add: h_def P_def)
    have n: "2 * h \<le> n" "n < 2 * h + 2" unfolding h_def by linarith+
    have "2 * P \<le> n" "n < 2 * (2 * P)" using h n by linarith+
    then show ?thesis by (simp add: b j P_def)
  qed
qed

lemma pow2_power_int: "pow2 k = power_int 2 k"
  by (simp add: pow2_def power_int_def power_inverse inverse_eq_divide power_one_over)

lemma pow2_pos: "0 < pow2 k"
  by (simp add: pow2_def)

lemma pow2_diff: "pow2 (int x - int y) = 2 ^ x / 2 ^ y"
  by (simp add: pow2_power_int power_int_diff)

lemma pow2_minus: "pow2 (k - int n) = pow2 k / 2 ^ n"
  by (simp add: pow2_power_int power_int_diff)

lemma round_half_even_error: "\<bar>of_int (round_half_even x) - x\<bar> \<le> 1 / 2"
proof -
  have "of_int \<lfloor>x\<rfloor> \<le> x" "x < of_int \<lfloor>x\<rfloor> + 1" by linarith+
  then show ?thesis
    by (auto simp: round_half_even_def Let_def abs_le_iff)
qed

text \<open>
  The quotient of the code is the exact quotient rounded at the 53rd binary digit: with
  the power of two \<open>e\<close> of its binade, a multiple of \<open>2\<^sup>e\<^sup>-\<^sup>5\<^sup>2\<close>.
\<close>

lemma number_div_binade:
  assumes "0 < a" and "0 < b"
  shows "\<exists>e. pow2 e \<le> of_nat a / of_nat b \<and> of_nat a / of_nat b < pow2 (e + 1)
           \<and> number_div a b
               = of_int (round_half_even ((of_nat a / of_nat b) / pow2 (e - 52))) * pow2 (e - 52)"
proof -
  define q :: rat where "q = of_nat a / of_nat b"
  define k where "k = int (bit_length a) - int (bit_length b)"
  define e where "e = (if pow2 k \<le> q then k else k - 1)"
  have nd: "number_div a b = of_int (round_half_even (q / pow2 (e - 52))) * pow2 (e - 52)"
    using assms(1) by (simp add: number_div_def Let_def q_def k_def e_def)
  have la: "(2::rat) ^ (bit_length a - 1) \<le> of_nat a" "of_nat a < (2::rat) ^ bit_length a"
    using bit_length_bounds [OF assms(1)]
    by (metis of_nat_le_iff of_nat_numeral of_nat_power,
        metis of_nat_less_iff of_nat_numeral of_nat_power)
  have lb: "(2::rat) ^ (bit_length b - 1) \<le> of_nat b" "of_nat b < (2::rat) ^ bit_length b"
    using bit_length_bounds [OF assms(2)]
    by (metis of_nat_le_iff of_nat_numeral of_nat_power,
        metis of_nat_less_iff of_nat_numeral of_nat_power)
  have apos: "(0::rat) < of_nat a" and bpos: "(0::rat) < of_nat b" using assms by simp_all
  have "pow2 (k - 1) = 2 ^ (bit_length a - 1) / 2 ^ bit_length b"
  proof -
    have "k - 1 = int (bit_length a - 1) - int (bit_length b)"
      using bit_length_pos [OF assms(1)] by (simp add: k_def)
    then show ?thesis by (simp only: pow2_diff)
  qed
  also have "\<dots> \<le> of_nat a / 2 ^ bit_length b"
    using la(1) by (simp add: divide_right_mono)
  also have "\<dots> \<le> of_nat a / of_nat b"
    using lb(2) bpos by (intro divide_left_mono) (simp_all add: less_imp_le)
  finally have low: "pow2 (k - 1) \<le> q" by (simp add: q_def)
  have "q < 2 ^ bit_length a / of_nat b"
    unfolding q_def using la(2) bpos by (simp add: divide_strict_right_mono)
  also have "\<dots> \<le> 2 ^ bit_length a / 2 ^ (bit_length b - 1)"
    using lb(1) bpos by (intro divide_left_mono) simp_all
  also have "\<dots> = pow2 (k + 1)"
  proof -
    have "k + 1 = int (bit_length a) - int (bit_length b - 1)"
      using bit_length_pos [OF assms(2)] by (simp add: k_def)
    then show ?thesis by (simp only: pow2_diff)
  qed
  finally have high: "q < pow2 (k + 1)" .
  have "pow2 e \<le> q \<and> q < pow2 (e + 1)"
    using low high by (simp add: e_def)
  then show ?thesis using nd unfolding q_def by blast
qed

text \<open>So it is the exact quotient up to a relative error of \<open>2\<^sup>-\<^sup>5\<^sup>3\<close>.\<close>

lemma number_div_error:
  assumes "0 < b"
  shows "\<bar>number_div a b - of_nat a / of_nat b\<bar> \<le> (of_nat a / of_nat b) / 2 ^ 53"
proof (cases "a = 0")
  case True
  then show ?thesis by (simp add: number_div_def)
next
  case False
  define q :: rat where "q = of_nat a / of_nat b"
  obtain e where e: "pow2 e \<le> q"
    and nd: "number_div a b = of_int (round_half_even (q / pow2 (e - 52))) * pow2 (e - 52)"
    using number_div_binade [of a b] False assms unfolding q_def by auto
  define ulp where "ulp = pow2 (e - 52)"
  have ulppos: "0 < ulp" by (simp add: ulp_def pow2_pos)
  have u: "ulp = pow2 e / 2 ^ 52" by (simp add: ulp_def pow2_minus [of e 52, simplified])
  have "\<bar>of_int (round_half_even (q / ulp)) - q / ulp\<bar> \<le> 1 / 2"
    by (rule round_half_even_error)
  then have "\<bar>of_int (round_half_even (q / ulp)) - q / ulp\<bar> * ulp \<le> 1 / 2 * ulp"
    using ulppos by (intro mult_right_mono) simp_all
  moreover have "\<bar>of_int (round_half_even (q / ulp)) - q / ulp\<bar> * ulp
                 = \<bar>of_int (round_half_even (q / ulp)) * ulp - q\<bar>"
  proof -
    have "(of_int (round_half_even (q / ulp)) - q / ulp) * ulp
            = of_int (round_half_even (q / ulp)) * ulp - q"
      using ulppos by (simp add: left_diff_distrib)
    then show ?thesis
      using abs_mult_pos [of ulp "of_int (round_half_even (q / ulp)) - q / ulp"] ulppos
      by simp
  qed
  ultimately have "\<bar>number_div a b - q\<bar> \<le> ulp / 2" by (simp add: nd ulp_def)
  also have "ulp / 2 = pow2 e / 2 ^ 53" by (simp add: u)
  also have "\<dots> \<le> q / 2 ^ 53" using e by (simp add: divide_right_mono)
  finally show ?thesis by (simp add: q_def)
qed

lemma toFixed2_zero: "toFixed2 0 = 0"
  by code_simp

lemma toFixed2_error: "\<bar>toFixed2 x - x\<bar> \<le> 1 / 200"
proof -
  have "of_int \<lfloor>x * 100 + 1 / 2\<rfloor> \<le> x * 100 + 1 / 2"
    "x * 100 + 1 / 2 < of_int \<lfloor>x * 100 + 1 / 2\<rfloor> + 1" by linarith+
  then have "of_int \<lfloor>x * 100 + 1 / 2\<rfloor> / 100 - x \<le> 1 / 200"
    "x - of_int \<lfloor>x * 100 + 1 / 2\<rfloor> / 100 \<le> 1 / 200"
    by linarith+
  then show ?thesis unfolding toFixed2_def abs_le_iff by simp
qed

text \<open>
  The rounding is that of the double, not of the exact quotient: 41 records in 40 files
  give the double below 1.025, and the average 1.02.
\<close>

lemma example_average_rounding:
  "toFixed2 (number_div 41 40) = 51 / 50 \<and> toFixed2 (41 / 40) = 103 / 100"
  by code_simp

lemma example_collate_total: "\<forall>a b. example_collate a b \<le> 0 \<or> example_collate b a \<le> 0"
  by (auto simp: example_collate_def)

lemma example_collate_trans:
  "\<forall>a b d. example_collate a b \<le> 0 \<longrightarrow> example_collate b d \<le> 0 \<longrightarrow> example_collate a d \<le> 0"
  by (auto simp: example_collate_def split: if_splits)

text \<open>
  C4 (as amended). Whenever \<^verbatim>\<open>generateReport()\<close> returns a report, and every id counted
  converts to a string that names no member of \<^verbatim>\<open>Object.prototype\<close>, the per-id list
  holds, for every string that is the key of a counted record (a record that is truthy
  and has a truthy id), the number of records of the surviving files that carry that key,
  and no other entry; the keys are distinct and the list ascends in the order of
  \<^verbatim>\<open>localeCompare\<close>. The average is the number of records of the surviving files (below
  \<open>2\<^sup>5\<^sup>3\<close>) over the number of surviving files that are not empty, divided as doubles and
  then rounded to two decimals: it is within 1/200 and a relative error of \<open>2\<^sup>-\<^sup>5\<^sup>3\<close> of the
  exact quotient. The number of files is the number of matching names.
\<close>

theorem report_counts_records_per_id:
  assumes "\<forall>a b. collate a b \<le> 0 \<or> collate b a \<le> 0"
    and "\<forall>a b d. collate a b \<le> 0 \<longrightarrow> collate b d \<le> 0 \<longrightarrow> collate a d \<le> 0"
    and "getBackupFiles dir rd = Inr files"
    and "plain_records (surviving_records load files)"
    and "length (surviving_records load files) < 2 ^ 53"
    and "generateReport eng collate dir rd load = Inr (Report r)"
  shows "sorted_wrt (\<lambda>p q. collate (fst p) (fst q) \<le> 0) (studentsGroupedById r)
         \<and> distinct (map fst (studentsGroupedById r))
         \<and> (\<forall>k. map_of (studentsGroupedById r) k
               = (if counted_records load files k = 0 then None
                  else Some (Count (counted_records load files k))))
         \<and> averageAmountOfStudents r
             = toFixed2 (if nonempty_surviving load files = 0 then 0
                         else number_div (length (surviving_records load files))
                                (nonempty_surviving load files))
         \<and> \<bar>averageAmountOfStudents r
              - (if nonempty_surviving load files = 0 then 0
                 else of_nat (length (surviving_records load files))
                      / of_nat (nonempty_surviving load files))\<bar>
             \<le> 1 / 200
                + (if nonempty_surviving load files = 0 then 0
                   else of_nat (length (surviving_records load files))
                        / of_nat (nonempty_surviving load files)) / 2 ^ 53
         \<and> amountOfBackupFiles r = length files"
proof -
  define acc where "acc = foldl (process_file eng load) init_acc files"
  define total where "total = length (surviving_records load files)"
  define nonempty where "nonempty = nonempty_surviving load files"
  have ok0: "counts_ok (studentIdCounts init_acc)"
    by (simp add: counts_ok_def init_acc_def)
  note f = fold_process_plain [OF ok0 assms(4), of eng, folded acc_def]
  have ok: "counts_ok (studentIdCounts acc)" using f by simp
  have cnt: "count_of (studentIdCounts acc) k = counted_records load files k" for k
    using f by (simp add: counted_records_def init_acc_def count_of_def)
  have tot: "totalStudents acc = total" "totalFilesWithStudents acc = nonempty"
    using f by (simp_all add: init_acc_def total_def nonempty_def)
  have d: "distinct (map fst (studentIdCounts acc))" using ok by (simp add: counts_ok_def)
  note srt = js_sort_props [OF assms(1,2) d]
  have r: "studentsGroupedById r = js_sort collate (studentIdCounts acc)
           \<and> averageAmountOfStudents r
               = toFixed2 (if 0 < totalFilesWithStudents acc
                           then number_div (totalStudents acc) (totalFilesWithStudents acc)
                           else 0)
           \<and> amountOfBackupFiles r = length files"
    using assms(3,6)
    by (auto simp: generateReport_def Let_def acc_def
             split: if_splits option.splits jsdate.splits)
  have m: "map_of (studentsGroupedById r) k
             = (if counted_records load files k = 0 then None
                else Some (Count (counted_records load files k)))" for k
    using count_of_map_of [OF ok, of k] srt r by (simp add: cnt)
  have a: "averageAmountOfStudents r
             = toFixed2 (if nonempty = 0 then 0 else number_div total nonempty)"
    using r by (simp add: tot)
  have b: "\<bar>averageAmountOfStudents r
              - (if nonempty = 0 then 0 else of_nat total / of_nat nonempty)\<bar>
             \<le> 1 / 200
                + (if nonempty = 0 then 0 else of_nat total / of_nat nonempty) / 2 ^ 53"
  proof (cases "nonempty = 0")
    case True
    then show ?thesis by (simp add: a toFixed2_zero)
  next
    case False
    define x where "x = number_div total nonempty"
    define q :: rat where "q = of_nat total / of_nat nonempty"
    have "\<bar>x - q\<bar> \<le> q / 2 ^ 53"
      unfolding x_def q_def using False by (intro number_div_error) simp
    moreover have "\<bar>toFixed2 x - x\<bar> \<le> 1 / 200"
      by (rule toFixed2_error)
    ultimately have "\<bar>toFixed2 x - q\<bar> \<le> 1 / 200 + q / 2 ^ 53"
      by linarith
    then show ?thesis using False by (simp add: a x_def q_def)
  qed
  show ?thesis using srt r m a b unfolding total_def nonempty_def by simp
qed

theorem report_counts_records_per_id_witness:
  "getBackupFiles ''/app'' (Listing [''2025-01-02.backup.json'', ''2025-01-03.backup.json''])
     = Inr [''/app/backups/2025-01-02.backup.json'', ''/app/backups/2025-01-03.backup.json'']
   \<and> plain_records (surviving_records example_load_ids
         [''/app/backups/2025-01-02.backup.json'', ''/app/backups/2025-01-03.backup.json''])
   \<and> length (surviving_records example_load_ids
         [''/app/backups/2025-01-02.backup.json'', ''/app/backups/2025-01-03.backup.json''])
       < 2 ^ 53
   \<and> generateReport example_engine example_collate ''/app''
         (Listing [''2025-01-02.backup.json'', ''2025-01-03.backup.json'']) example_load_ids
       = Inr (Report \<lparr>amountOfBackupFiles = 2,
                latestBackupFile = Some ''2025-01-03.backup.json'',
                latestBackupDatetime = Some ''2025-01-03T00:00:00.000Z'',
                studentsGroupedById = [(''1'', Count 1), (''2'', Count 3), (''3'', Count 3)],
                averageAmountOfStudents = 7 / 2\<rparr>)
   \<and> counted_records example_load_ids
         [''/app/backups/2025-01-02.backup.json'', ''/app/backups/2025-01-03.backup.json''] ''2''
       = 3"
proof -
  have g: "getBackupFiles ''/app'' (Listing [''2025-01-02.backup.json'', ''2025-01-03.backup.json''])
     = Inr [''/app/backups/2025-01-02.backup.json'', ''/app/backups/2025-01-03.backup.json'']"
    by code_simp
  have p: "plain_records (surviving_records example_load_ids
         [''/app/backups/2025-01-02.backup.json'', ''/app/backups/2025-01-03.backup.json''])"
    by code_simp
  have "length (surviving_records example_load_ids
         [''/app/backups/2025-01-02.backup.json'', ''/app/backups/2025-01-03.backup.json''])
       = 7"
    by code_simp
  then have l: "length (surviving_records example_load_ids
         [''/app/backups/2025-01-02.backup.json'', ''/app/backups/2025-01-03.backup.json''])
       < 2 ^ 53"
    by simp
  have r: "generateReport example_engine example_collate ''/app''
         (Listing [''2025-01-02.backup.json'', ''2025-01-03.backup.json'']) example_load_ids
       = Inr (Report \<lparr>amountOfBackupFiles = 2,
                latestBackupFile = Some ''2025-01-03.backup.json'',
                latestBackupDatetime = Some ''2025-01-03T00:00:00.000Z'',
                studentsGroupedById = [(''1'', Count 1), (''2'', Count 3), (''3'', Count 3)],
                averageAmountOfStudents = 7 / 2\<rparr>)"
    by code_simp
  note t = report_counts_records_per_id
             [OF example_collate_total example_collate_trans g p l r]
  from t have "map_of [(''1'', Count 1), (''2'', Count 3), (''3'', Count 3)] ''2''
         = (if counted_records example_load_ids
                 [''/app/backups/2025-01-02.backup.json'',
                  ''/app/backups/2025-01-03.backup.json''] ''2'' = 0 then None
            else Some (Count (counted_records example_load_ids
                 [''/app/backups/2025-01-02.backup.json'',
                  ''/app/backups/2025-01-03.backup.json''] ''2'')))"
    by (metis full_report.select_convs(4))
  then have "counted_records example_load_ids
         [''/app/backups/2025-01-02.backup.json'', ''/app/backups/2025-01-03.backup.json''] ''2''
       = 3"
    by (simp split: if_splits)
  then show ?thesis using g p l r by simp
qed

text \<open>
  C4, the claim as stated, fails: a record with the id 0 is seen in a surviving file and
  is not counted, and the ids 9 and 10 are listed with 10 first.
\<close>

theorem report_counts_records_per_id_counterexample:
  "generateReport example_engine example_collate ''/app''
     (Listing [''2025-01-02.backup.json'']) example_load_zero_id
     = Inr (Report \<lparr>amountOfBackupFiles = 1,
              latestBackupFile = Some ''2025-01-02.backup.json'',
              latestBackupDatetime = Some ''2025-01-02T00:00:00.000Z'',
              studentsGroupedById = [(''10'', Count 1), (''9'', Count 1)],
              averageAmountOfStudents = 3\<rparr>)
   \<and> spec_id_count example_load_zero_id [''/app/backups/2025-01-02.backup.json''] ''0'' = 1"
  by code_simp

text \<open>
  C8. If the backup directory does not exist, or holds no file with the suffix
  \<^verbatim>\<open>.backup.json\<close>, \<^verbatim>\<open>generateReport()\<close> raises no error and returns the report with zero
  files and the message \<^verbatim>\<open>No backup files found.\<close>, and nothing else.
\<close>

theorem no_backups_report:
  assumes "(\<exists>e. rd = ReaddirError e \<and> code e = ''ENOENT'')
           \<or> (\<exists>names. rd = Listing names
                \<and> filter (\<lambda>file. endsWith file ''.backup.json'') names = [])"
  shows "generateReport eng collate dir rd load = Inr (NoBackups 0 ''No backup files found.'')"
  using assms by (auto simp: generateReport_def getBackupFiles_def)

theorem no_backups_report_witness:
  "generateReport example_engine example_collate ''/app''
     (ReaddirError (JsError ''ENOENT'' ''no such file or directory'')) example_load_corrupt
     = Inr (NoBackups 0 ''No backup files found.'')
   \<and> filter (\<lambda>file. endsWith file ''.backup.json'') [''notes.txt'', ''students.json''] = []
   \<and> generateReport example_engine example_collate ''/app''
       (Listing [''notes.txt'', ''students.json'']) example_load_corrupt
       = Inr (NoBackups 0 ''No backup files found.'')"
proof -
  have f: "filter (\<lambda>file. endsWith file ''.backup.json'') [''notes.txt'', ''students.json''] = []"
    by (simp add: endsWith_def)
  have a: "(\<exists>e. ReaddirError (JsError ''ENOENT'' ''no such file or directory'') = ReaddirError e
             \<and> code e = ''ENOENT'')
           \<or> (\<exists>names. ReaddirError (JsError ''ENOENT'' ''no such file or directory'')
                 = Listing names
                \<and> filter (\<lambda>file. endsWith file ''.backup.json'') names = [])"
    by simp
  have b: "(\<exists>e. Listing [''notes.txt'', ''students.json''] = ReaddirError e \<and> code e = ''ENOENT'')
           \<or> (\<exists>names. Listing [''notes.txt'', ''students.json''] = Listing names
                \<and> filter (\<lambda>file. endsWith file ''.backup.json'') names = [])"
    using f by simp
  show ?thesis
    using no_backups_report [OF a] no_backups_report [OF b] f by simp
qed

text \<open>
  C6. \<^verbatim>\<open>generateReport()\<close> skips the files that fail to load and never aborts. In the
  code, with one snapshot that fails to parse and one valid snapshot of two records under
  the name the manager gave it, the valid file's date is what \<^verbatim>\<open>new Date(string)\<close> makes
  of the hyphen-separated stamp; when that is an Invalid Date, \<^verbatim>\<open>toISOString\<close> throws and
  the report is lost.
\<close>

theorem report_aborts_on_invalid_date:
  assumes "Date_parse eng ''2025-01-02-03-04-35'' = InvalidDate"
  shows "generateReport eng collate ''/app''
           (Listing [''backup-2025-01-02-03-04-05.backup.json'',
                     ''backup-2025-01-02-03-04-35.backup.json'']) example_load_corrupt
         = Inl invalid_time_value"
proof -
  have "parseTimestampFromFilename eng ''/app/backups/backup-2025-01-02-03-04-35.backup.json''
          = InvalidDate"
    using assms
    by (simp add: parseTimestampFromFilename_def path_basename_def last_segment_def
          endsWith_def startsWith_def split_first_def Let_def)
  then show ?thesis
    by (simp add: generateReport_def getBackupFiles_def endsWith_def path_join_def
          path_resolve_def startsWith_def process_file_def example_load_corrupt_def
          init_acc_def Let_def example_record_def counted_id_def truthy_def
          get_property_def count_id_def obj_set_def array_index_def is_digit_def
          Object_prototype_functions_def)
qed

theorem report_aborts_on_invalid_date_witness:
  "Date_parse example_engine ''2025-01-02-03-04-35'' = InvalidDate
   \<and> generateReport example_engine example_collate ''/app''
       (Listing [''backup-2025-01-02-03-04-05.backup.json'',
                 ''backup-2025-01-02-03-04-35.backup.json'']) example_load_corrupt
       = Inl invalid_time_value"
proof -
  have a: "Date_parse example_engine ''2025-01-02-03-04-35'' = InvalidDate"
    by (simp add: example_engine_def iso_Date_parse_def iso_pattern_def Let_def)
  show ?thesis
    using report_aborts_on_invalid_date [OF a] a by simp
qed

end
